theory Spec2Isabelle
  imports Main
begin

section \<open>Strings of the source language\<close>

text \<open>
  A source string is modelled as a \<^typ>\<open>string\<close>: a list of code units, each below 256
  (the first 256 code points). The predicates below are the source language's character
  classes restricted to that range: \<open>\s\<close>, \<open>\d\<close>, \<open>\w\<close>, and the case mapping
  used by \<open>toLowerCase\<close> and by the \<open>i\<close> flag.
\<close>

abbreviation NL :: char where "NL \<equiv> CHR 0x0A"
abbreviation CR :: char where "CR \<equiv> CHR 0x0D"
abbreviation DQ :: char where "DQ \<equiv> CHR 0x22"
abbreviation SQ :: char where "SQ \<equiv> CHR 0x27"
abbreviation BT :: char where "BT \<equiv> CHR 0x60"

definition isSpace :: "char \<Rightarrow> bool" where
  "isSpace c = (c \<in> set [CHR 0x09, CHR 0x0A, CHR 0x0B, CHR 0x0C, CHR 0x0D, CHR 0x20, CHR 0xA0])"

definition isDigit :: "char \<Rightarrow> bool" where
  "isDigit c = (let n = (of_char c :: nat) in 48 \<le> n \<and> n \<le> 57)"

definition isUpperAZ :: "char \<Rightarrow> bool" where
  "isUpperAZ c = (let n = (of_char c :: nat) in 65 \<le> n \<and> n \<le> 90)"

definition isLowerAZ :: "char \<Rightarrow> bool" where
  "isLowerAZ c = (let n = (of_char c :: nat) in 97 \<le> n \<and> n \<le> 122)"

definition isWord :: "char \<Rightarrow> bool" where
  "isWord c = (isUpperAZ c \<or> isLowerAZ c \<or> isDigit c \<or> c = CHR ''_'')"

definition toLowerChar :: "char \<Rightarrow> char" where
  "toLowerChar c =
     (let n = (of_char c :: nat)
      in if (65 \<le> n \<and> n \<le> 90) \<or> (192 \<le> n \<and> n \<le> 222 \<and> n \<noteq> 215)
         then char_of (n + 32) else c)"

definition toLowerCase :: "string \<Rightarrow> string" where
  "toLowerCase s = map toLowerChar s"

definition trimStart :: "string \<Rightarrow> string" where
  "trimStart s = dropWhile isSpace s"

definition trimEnd :: "string \<Rightarrow> string" where
  "trimEnd s = rev (dropWhile isSpace (rev s))"

definition trim :: "string \<Rightarrow> string" where
  "trim s = trimEnd (trimStart s)"

fun startsWith :: "string \<Rightarrow> string \<Rightarrow> bool" where
  "startsWith s [] = True"
| "startsWith [] (p # ps) = False"
| "startsWith (c # cs) (p # ps) = (c = p \<and> startsWith cs ps)"

fun strIncludes :: "string \<Rightarrow> string \<Rightarrow> bool" where
  "strIncludes [] p = (p = [])"
| "strIncludes (c # cs) p = (startsWith (c # cs) p \<or> strIncludes cs p)"

text \<open>\<open>s.split(c)\<close> for a one-character separator string.\<close>

fun splitChar :: "char \<Rightarrow> string \<Rightarrow> string \<Rightarrow> string list" where
  "splitChar sep acc [] = [rev acc]"
| "splitChar sep acc (c # cs) =
     (if c = sep then rev acc # splitChar sep [] cs else splitChar sep (c # acc) cs)"

definition splitOn :: "char \<Rightarrow> string \<Rightarrow> string list" where
  "splitOn sep s = splitChar sep [] s"

text \<open>\<open>xs.join(sep)\<close>.\<close>

fun joinWith :: "string \<Rightarrow> string list \<Rightarrow> string" where
  "joinWith sep [] = []"
| "joinWith sep [x] = x"
| "joinWith sep (x # y # ys) = x @ sep @ joinWith sep (y # ys)"

text \<open>Decimal numerals: \<open>String(n)\<close> for a non-negative integer, and \<open>parseInt\<close> on a
  string of digits. Numbers are unbounded naturals (the source's numbers are doubles, exact
  below \<open>2^53\<close>).\<close>

definition digitChar :: "nat \<Rightarrow> char" where
  "digitChar d = char_of (48 + d)"

fun showNat :: "nat \<Rightarrow> string" where
  "showNat n = (if n < 10 then [digitChar n] else showNat (n div 10) @ [digitChar (n mod 10)])"

definition digitVal :: "char \<Rightarrow> nat" where
  "digitVal c = of_char c - 48"

definition parseInt :: "string \<Rightarrow> nat" where
  "parseInt ds = foldl (\<lambda>a c. 10 * a + digitVal c) 0 ds"

section \<open>Regular expressions with backtracking\<close>

text \<open>
  The source's regular expressions are kept as terms of \<open>regex\<close> and run by a backtracking
  matcher in continuation-passing style, which tries alternatives in the order the source
  language's matcher does: the left branch of \<open>|\<close> first, a greedy quantifier longest first,
  a lazy one shortest first. An iteration of \<open>*\<close> that consumes nothing is rejected.
\<close>

text \<open>The matcher's state: the text before the position (reversed), the text from it, and
  the groups captured so far, newest first.\<close>

record st =
  behind :: string
  rest :: string
  caps :: "(nat \<times> string) list"

datatype regex =
    Eps
  | Chr char
  | Cls "char \<Rightarrow> bool"
  | Seq regex regex
  | Alt regex regex
  | Star regex
  | Lazy regex
  | Grp nat regex
  | Ref nat
  | Bol
  | Eol
  | NotBehind char
  | NotAhead char

definition adv :: "st \<Rightarrow> st" where
  "adv s = s\<lparr>behind := hd (rest s) # behind s, rest := tl (rest s)\<rparr>"

primrec advs :: "nat \<Rightarrow> st \<Rightarrow> st" where
  "advs 0 s = s"
| "advs (Suc n) s = advs n (adv s)"

primrec repG :: "nat \<Rightarrow> ((st \<Rightarrow> st option) \<Rightarrow> st \<Rightarrow> st option) \<Rightarrow> (st \<Rightarrow> st option) \<Rightarrow> st \<Rightarrow> st option" where
  "repG 0 f k s = k s"
| "repG (Suc n) f k s =
     (case f (\<lambda>s'. if length (rest s') < length (rest s) then repG n f k s' else None) s of
        Some r \<Rightarrow> Some r
      | None \<Rightarrow> k s)"

primrec repL :: "nat \<Rightarrow> ((st \<Rightarrow> st option) \<Rightarrow> st \<Rightarrow> st option) \<Rightarrow> (st \<Rightarrow> st option) \<Rightarrow> st \<Rightarrow> st option" where
  "repL 0 f k s = k s"
| "repL (Suc n) f k s =
     (case k s of
        Some r \<Rightarrow> Some r
      | None \<Rightarrow> f (\<lambda>s'. if length (rest s') < length (rest s) then repL n f k s' else None) s)"

primrec m :: "regex \<Rightarrow> (st \<Rightarrow> st option) \<Rightarrow> st \<Rightarrow> st option" where
  "m Eps k s = k s"
| "m (Chr c) k s = (case rest s of [] \<Rightarrow> None | x # xs \<Rightarrow> if x = c then k (adv s) else None)"
| "m (Cls p) k s = (case rest s of [] \<Rightarrow> None | x # xs \<Rightarrow> if p x then k (adv s) else None)"
| "m (Seq a b) k s = m a (m b k) s"
| "m (Alt a b) k s = (case m a k s of Some r \<Rightarrow> Some r | None \<Rightarrow> m b k s)"
| "m (Star a) k s = repG (length (rest s)) (m a) k s"
| "m (Lazy a) k s = repL (length (rest s)) (m a) k s"
| "m (Grp n a) k s =
     m a (\<lambda>s'. k (s'\<lparr>caps := (n, take (length (rest s) - length (rest s')) (rest s)) # caps s'\<rparr>)) s"
| "m (Ref n) k s =
     (case map_of (caps s) n of
        None \<Rightarrow> k s
      | Some v \<Rightarrow> if startsWith (rest s) v then k (advs (length v) s) else None)"
| "m Bol k s = (if behind s = [] then k s else None)"
| "m Eol k s = (if rest s = [] then k s else None)"
| "m (NotBehind c) k s = (case behind s of [] \<Rightarrow> k s | x # xs \<Rightarrow> if x = c then None else k s)"
| "m (NotAhead c) k s = (case rest s of [] \<Rightarrow> k s | x # xs \<Rightarrow> if x = c then None else k s)"

text \<open>Derived forms: a literal, a literal under the \<open>i\<close> flag, \<open>r+\<close>, \<open>r+?\<close>, \<open>r?\<close>,
  \<open>r{n}\<close>, \<open>r{n,}\<close>, \<open>r{0,n}\<close>, and the classes.\<close>

definition Seqs :: "regex list \<Rightarrow> regex" where
  "Seqs rs = foldr Seq rs Eps"

fun Alts :: "regex list \<Rightarrow> regex" where
  "Alts [] = Eps"
| "Alts [r] = r"
| "Alts (r # rs) = Alt r (Alts rs)"

definition lit :: "string \<Rightarrow> regex" where
  "lit s = foldr (\<lambda>c r. Seq (Chr c) r) s Eps"

definition liti :: "string \<Rightarrow> regex" where
  "liti s = foldr (\<lambda>c r. Seq (Cls (\<lambda>x. toLowerChar x = toLowerChar c)) r) s Eps"

definition Plus :: "regex \<Rightarrow> regex" where
  "Plus r = Seq r (Star r)"

definition LazyPlus :: "regex \<Rightarrow> regex" where
  "LazyPlus r = Seq r (Lazy r)"

definition Opt :: "regex \<Rightarrow> regex" where
  "Opt r = Alt r Eps"

primrec Times :: "nat \<Rightarrow> regex \<Rightarrow> regex" where
  "Times 0 r = Eps"
| "Times (Suc n) r = Seq r (Times n r)"

definition AtLeast :: "nat \<Rightarrow> regex \<Rightarrow> regex" where
  "AtLeast n r = Seq (Times n r) (Star r)"

primrec UpTo :: "nat \<Rightarrow> regex \<Rightarrow> regex" where
  "UpTo 0 r = Eps"
| "UpTo (Suc n) r = Opt (Seq r (UpTo n r))"

definition Any :: regex where
  "Any = Cls (\<lambda>_. True)"

definition NoneOf :: "string \<Rightarrow> regex" where
  "NoneOf cs = Cls (\<lambda>c. c \<notin> set cs)"

definition OneOf :: "string \<Rightarrow> regex" where
  "OneOf cs = Cls (\<lambda>c. c \<in> set cs)"

definition Space :: regex where
  "Space = Cls isSpace"

definition NonSpace :: regex where
  "NonSpace = Cls (\<lambda>c. \<not> isSpace c)"

definition Digit :: regex where
  "Digit = Cls isDigit"

definition Word :: regex where
  "Word = Cls isWord"

text \<open>One attempt of the matcher at a position: \<open>b\<close> is the text before the position,
  reversed, \<open>s\<close> the text from it.\<close>

definition matchAt :: "regex \<Rightarrow> string \<Rightarrow> string \<Rightarrow> st option" where
  "matchAt r b s = m r Some \<lparr>behind = b, rest = s, caps = []\<rparr>"

text \<open>A match as the source language reports it: the text before it, the matched text,
  the groups, the text after it.\<close>

record mres =
  pre :: string
  whole :: string
  grp :: "(nat \<times> string) list"
  post :: string

definition mkRes :: "string \<Rightarrow> string \<Rightarrow> st \<Rightarrow> mres" where
  "mkRes b s s' =
     \<lparr>pre = rev b, whole = take (length s - length (rest s')) s, grp = caps s', post = rest s'\<rparr>"

text \<open>\<open>s.match(r)\<close> without the \<open>g\<close> flag: the leftmost match.\<close>

fun searchFrom :: "regex \<Rightarrow> string \<Rightarrow> string \<Rightarrow> mres option" where
  "searchFrom r b [] = map_option (mkRes b []) (matchAt r b [])"
| "searchFrom r b (c # cs) =
     (case matchAt r b (c # cs) of
        Some s' \<Rightarrow> Some (mkRes b (c # cs) s')
      | None \<Rightarrow> searchFrom r (c # b) cs)"

definition jsMatch :: "regex \<Rightarrow> string \<Rightarrow> mres option" where
  "jsMatch r s = searchFrom r [] s"

definition jsTest :: "regex \<Rightarrow> string \<Rightarrow> bool" where
  "jsTest r s = (jsMatch r s \<noteq> None)"

text \<open>The first group of a match, \<open>match[i]\<close>; a group that did not take part is the
  empty string here (no regular expression of the program reads such a group).\<close>

definition group :: "mres \<Rightarrow> nat \<Rightarrow> string" where
  "group r i = (case map_of (grp r) i of Some v \<Rightarrow> v | None \<Rightarrow> [])"

text \<open>\<open>s.replace(r, f)\<close> without the \<open>g\<close> flag: the leftmost match is replaced.\<close>

definition jsReplace1 :: "regex \<Rightarrow> (mres \<Rightarrow> string) \<Rightarrow> string \<Rightarrow> string" where
  "jsReplace1 r f s = (case jsMatch r s of None \<Rightarrow> s | Some x \<Rightarrow> pre x @ f x @ post x)"

text \<open>\<open>s.replace(r, f)\<close> with the \<open>g\<close> flag: matches are looked for from left to right in
  the original string, each attempt starting where the previous match ended; after an empty
  match the position moves on by one character.\<close>

function replG :: "regex \<Rightarrow> ('s \<Rightarrow> mres \<Rightarrow> string \<times> 's) \<Rightarrow> 's \<Rightarrow> string \<Rightarrow> string \<Rightarrow> string \<times> 's" where
  "replG r f u b s =
     (case matchAt r b s of
        None \<Rightarrow>
          (case s of
             [] \<Rightarrow> ([], u)
           | c # cs \<Rightarrow> (let (out, u') = replG r f u (c # b) cs in (c # out, u')))
      | Some s' \<Rightarrow>
          (let n = length s - length (rest s');
               (t, u1) = f u (mkRes b s s')
           in if n = 0
              then (case s of
                      [] \<Rightarrow> (t, u1)
                    | c # cs \<Rightarrow> (let (out, u') = replG r f u1 (c # b) cs in (t @ c # out, u')))
              else (let (out, u') = replG r f u1 (rev (take n s) @ b) (drop n s)
                    in (t @ out, u'))))"
  by pat_completeness auto
termination
  by (relation "measure (\<lambda>(r, f, u, b, s). length s)") auto

text \<open>The callback of \<open>jsReplaceS\<close> reads and updates a state (an array the source's
  callback pushes to); that of \<open>jsReplace\<close> has none.\<close>

definition jsReplaceS :: "regex \<Rightarrow> ('s \<Rightarrow> mres \<Rightarrow> string \<times> 's) \<Rightarrow> 's \<Rightarrow> string \<Rightarrow> string \<times> 's" where
  "jsReplaceS r f u s = replG r f u [] s"

definition stateless :: "(mres \<Rightarrow> string) \<Rightarrow> unit \<Rightarrow> mres \<Rightarrow> string \<times> unit" where
  "stateless f u x = (f x, u)"

definition jsReplace :: "regex \<Rightarrow> (mres \<Rightarrow> string) \<Rightarrow> string \<Rightarrow> string" where
  "jsReplace r f s = fst (replG r (stateless f) () [] s)"

text \<open>\<open>s.split(r)\<close>: the pieces between the matches, each followed by the groups of the
  match that ended it. A match is tried at every position \<open>q\<close> of a non-empty string;
  one that ends where the current piece starts is skipped.\<close>

function splitGo :: "regex \<Rightarrow> nat list \<Rightarrow> string \<Rightarrow> string \<Rightarrow> string \<Rightarrow> string list" where
  "splitGo r gs b acc s =
     (case s of
        [] \<Rightarrow> [rev acc]
      | c # cs \<Rightarrow>
          (case matchAt r b s of
             None \<Rightarrow> splitGo r gs (c # b) (c # acc) cs
           | Some s' \<Rightarrow>
               (let n = length s - length (rest s') in
                if n = 0
                then (if acc = [] then splitGo r gs (c # b) (c # acc) cs
                      else rev acc # map (\<lambda>g. case map_of (caps s') g of Some v \<Rightarrow> v | None \<Rightarrow> []) gs
                           @ splitGo r gs b [] s)
                else rev acc # map (\<lambda>g. case map_of (caps s') g of Some v \<Rightarrow> v | None \<Rightarrow> []) gs
                     @ splitGo r gs (rev (take n s) @ b) [] (drop n s))))"
  by pat_completeness auto
termination
  by (relation "measure (\<lambda>(r, gs, b, acc, s). 2 * length s + (if acc = [] then 0 else 1))") auto

definition jsSplit :: "regex \<Rightarrow> nat list \<Rightarrow> string \<Rightarrow> string list" where
  "jsSplit r gs s =
     (if s = [] then (if matchAt r [] [] = None then [[]] else []) else splitGo r gs [] [] s)"

text \<open>\<open>encodeURIComponent\<close>: the unreserved characters stay, every other code unit is
  written as the percent-encoded bytes of its UTF-8 form (one byte below 128, two from 128
  to 255).\<close>

definition unreserved :: "char \<Rightarrow> bool" where
  "unreserved c = (isUpperAZ c \<or> isLowerAZ c \<or> isDigit c \<or> c \<in> set (''-_.!~*'' @ [SQ] @ ''()''))"

definition hexDigit :: "nat \<Rightarrow> char" where
  "hexDigit n = (''0123456789ABCDEF'') ! (n mod 16)"

definition pct :: "nat \<Rightarrow> string" where
  "pct b = [CHR ''%'', hexDigit (b div 16), hexDigit (b mod 16)]"

definition encodeChar :: "char \<Rightarrow> string" where
  "encodeChar c =
     (let n = (of_char c :: nat)
      in if unreserved c then [c]
         else if n < 128 then pct n
         else pct (192 + n div 64) @ pct (128 + n mod 64))"

definition encodeURIComponent :: "string \<Rightarrow> string" where
  "encodeURIComponent s = concat (map encodeChar s)"

section \<open>Chat.tsx\<close>

record Person =
  name :: string
  avatar :: "string option"

record ChatMessage =
  person :: Person
  content :: string

text \<open>\<open>/^[a-zA-Z0-9_]{3,16}$/\<close>\<close>

definition minecraftNamePattern :: regex where
  "minecraftNamePattern = Seq Bol (Seq (Times 3 Word) (Seq (UpTo 13 Word) Eol))"

definition getMinecraftAvatar :: "string \<Rightarrow> string" where
  "getMinecraftAvatar username =
     (if jsTest minecraftNamePattern username
      then ''https://mc-heads.net/avatar/'' @ encodeURIComponent username
      else [])"

text \<open>\<open>.\<close> matches any character but a line terminator.\<close>

definition Dot :: regex where
  "Dot = Cls (\<lambda>c. c \<noteq> NL \<and> c \<noteq> CR)"

text \<open>\<open>/^@person\s+(.+)$/\<close>\<close>

definition personRe :: regex where
  "personRe = Seq Bol (Seq (lit ''@person'') (Seq (Plus Space) (Seq (Grp 1 (Plus Dot)) Eol)))"

text \<open>\<open>/KEY:\s*['"]?([^,'"]+)['"]?/i\<close>, the shape of the attribute expressions of
  \<open>parseChatContent\<close> and of the link-card block.\<close>

definition quotedAttrRe :: "string \<Rightarrow> regex" where
  "quotedAttrRe key =
     Seq (liti key) (Seq (Star Space) (Seq (Opt (OneOf [SQ, DQ]))
       (Seq (Grp 1 (Plus (NoneOf [CHR '','', SQ, DQ]))) (Opt (OneOf [SQ, DQ])))))"

text \<open>\<open>/name:\s*([^,]+?)(?:\s*,\s*|$)/i\<close>\<close>

definition nameRe2 :: regex where
  "nameRe2 =
     Seq (liti ''name:'') (Seq (Star Space) (Seq (Grp 1 (LazyPlus (NoneOf '','')))
       (Alt (Seq (Star Space) (Seq (Chr CHR '','') (Star Space))) Eol)))"

text \<open>\<open>/name:\s*(\S+)/i\<close>\<close>

definition nameRe3 :: regex where
  "nameRe3 = Seq (liti ''name:'') (Seq (Star Space) (Grp 1 (Plus NonSpace)))"

definition parsePerson :: "string \<Rightarrow> Person" where
  "parsePerson attrs =
     (let nameMatch = (case jsMatch (quotedAttrRe ''name:'') attrs of
                         Some x \<Rightarrow> Some x
                       | None \<Rightarrow> (case jsMatch nameRe2 attrs of
                                     Some x \<Rightarrow> Some x
                                   | None \<Rightarrow> jsMatch nameRe3 attrs));
          avatarMatch = jsMatch (quotedAttrRe ''avatar:'') attrs;
          nm = (case nameMatch of Some x \<Rightarrow> trim (group x 1) | None \<Rightarrow> ''Unknown'');
          av = (case avatarMatch of Some x \<Rightarrow> Some (trim (group x 1)) | None \<Rightarrow> None);
          av' = (case av of
                   None \<Rightarrow> None
                 | Some a \<Rightarrow>
                     if a \<noteq> [] \<and> toLowerCase a = ''minecraft''
                     then (let minecraftAvatar = getMinecraftAvatar nm
                           in if minecraftAvatar \<noteq> [] then Some minecraftAvatar else None)
                     else Some a)
      in \<lparr>name = nm, avatar = av'\<rparr>)"

text \<open>Closing the message in progress: pushed only when its trimmed text is non-empty.\<close>

definition pushMessage :: "ChatMessage list \<Rightarrow> Person \<Rightarrow> string list \<Rightarrow> ChatMessage list" where
  "pushMessage messages p currentContent =
     (let messageContent = trim (joinWith [NL] currentContent)
      in if messageContent \<noteq> [] then messages @ [\<lparr>person = p, content = messageContent\<rparr>]
         else messages)"

text \<open>The loop over the lines, with \<open>messages\<close>, \<open>currentPerson\<close> and \<open>currentContent\<close>
  as its state, and the code after the loop at the end of the list.\<close>

fun chatLoop :: "string list \<Rightarrow> ChatMessage list \<Rightarrow> Person option \<Rightarrow> string list \<Rightarrow> ChatMessage list" where
  "chatLoop [] messages currentPerson currentContent =
     (case currentPerson of
        Some p \<Rightarrow> if currentContent \<noteq> [] then pushMessage messages p currentContent else messages
      | None \<Rightarrow> messages)"
| "chatLoop (line # ls) messages currentPerson currentContent =
     (case jsMatch personRe line of
        Some personMatch \<Rightarrow>
          (case currentPerson of
             Some p \<Rightarrow>
               chatLoop ls (pushMessage messages p currentContent)
                 (Some (parsePerson (trim (group personMatch 1)))) []
           | None \<Rightarrow>
               chatLoop ls messages (Some (parsePerson (trim (group personMatch 1)))) currentContent)
      | None \<Rightarrow>
          (case currentPerson of
             Some p \<Rightarrow> chatLoop ls messages currentPerson (currentContent @ [line])
           | None \<Rightarrow> chatLoop ls messages currentPerson currentContent))"

text \<open>\<open>content.split(/\r?\n/).map(line => line.replace(/\r$/, '').trimEnd())\<close>\<close>

definition chatLines :: "string \<Rightarrow> string list" where
  "chatLines txt =
     map (\<lambda>line. trimEnd (jsReplace1 (Seq (Chr CR) Eol) (\<lambda>_. []) line))
       (jsSplit (Seq (Opt (Chr CR)) (Chr NL)) [] txt)"

definition parseChatContent :: "string \<Rightarrow> ChatMessage list" where
  "parseChatContent txt =
     (if txt = [] \<or> trim txt = [] then [] else chatLoop (chatLines txt) [] None [])"

section \<open>MarkdownRenderer: the scan for ordered-list numbers\<close>






section \<open>MarkdownRenderer: processContent\<close>

subsection \<open>Nested-list indentation, with code blocks set aside\<close>

text \<open>\<open>/(^|\n)(`{3,}|~{3,})([\s\S]*?)\2/g\<close>\<close>

definition fenceAnyRe :: regex where
  "fenceAnyRe =
     Seqs [Grp 1 (Alt Bol (Chr NL)),
           Grp 2 (Alt (AtLeast 3 (Chr BT)) (AtLeast 3 (Chr CHR ''~''))),
           Grp 3 (Lazy Any), Ref 2]"

definition listPlaceholder :: "nat \<Rightarrow> string" where
  "listPlaceholder i = ''___CODE_BLOCK_PLACEHOLDER_'' @ showNat i @ ''___''"

definition protectForLists :: "string \<Rightarrow> string \<times> string list" where
  "protectForLists s =
     jsReplaceS fenceAnyRe
       (\<lambda>codeBlockPlaceholders x.
          (listPlaceholder (length codeBlockPlaceholders), codeBlockPlaceholders @ [whole x]))
       [] s"

text \<open>\<open>/^(\s*)(\d+\.\s+.*)$/\<close>\<close>

definition listItemRe :: regex where
  "listItemRe =
     Seqs [Bol, Grp 1 (Star Space),
           Grp 2 (Seqs [Plus Digit, Chr CHR ''.'', Plus Space, Star Dot]), Eol]"

text \<open>One turn of the loop over \<open>lines\<close>: \<open>prev\<close> is \<open>lines[i - 1]\<close>, absent when
  \<open>i = 0\<close>; the result is what the turn pushes to \<open>fixedLines\<close>.\<close>

definition fixLine :: "string option \<Rightarrow> string \<Rightarrow> string list" where
  "fixLine prev line =
     (let listMatch = jsMatch listItemRe line;
          prevLine = (case prev of Some l \<Rightarrow> l | None \<Rightarrow> []);
          prevListMatch = jsMatch listItemRe prevLine
      in case listMatch of
           None \<Rightarrow> [line]
         | Some lm \<Rightarrow>
             (let indentLength = length (group lm 1);
                  body = group lm 2;
                  prevIndentLength = (case prevListMatch of Some pm \<Rightarrow> length (group pm 1) | None \<Rightarrow> 0);
                  blank = (if indentLength > 0 \<and> prevListMatch \<noteq> None \<and> prevIndentLength < indentLength
                              \<and> prev \<noteq> None \<and> trim prevLine \<noteq> []
                           then [[]] else [])
              in blank @
                 (if indentLength > 0
                  then (if 2 \<le> indentLength \<and> indentLength \<le> 4 then [''    '' @ body]
                        else if 5 \<le> indentLength \<and> indentLength \<le> 6 then [''       '' @ body]
                        else [line])
                  else [line])))"

fun fixLines :: "string option \<Rightarrow> string list \<Rightarrow> string list" where
  "fixLines prev [] = []"
| "fixLines prev (line # ls) = fixLine prev line @ fixLines (Some line) ls"

text \<open>\<open>s.replace(pattern, replacement)\<close> with two strings: the first occurrence of the
  pattern is replaced, and in the replacement \<open>$$\<close> stands for \<open>$\<close>, \<open>$&\<close> for the
  matched text, \<open>$`\<close> for the text before it and \<open>$'\<close> for the text after it (there are
  no groups, so \<open>$1\<close> and the like stay as they are).\<close>

fun expandReplacement :: "string \<Rightarrow> string \<Rightarrow> string \<Rightarrow> string \<Rightarrow> string" where
  "expandReplacement matched bef aft [] = []"
| "expandReplacement matched bef aft [c] = [c]"
| "expandReplacement matched bef aft (c # d # cs) =
     (if c = CHR ''$'' \<and> d = CHR ''$'' then CHR ''$'' # expandReplacement matched bef aft cs
      else if c = CHR ''$'' \<and> d = CHR ''&'' then matched @ expandReplacement matched bef aft cs
      else if c = CHR ''$'' \<and> d = BT then bef @ expandReplacement matched bef aft cs
      else if c = CHR ''$'' \<and> d = SQ then aft @ expandReplacement matched bef aft cs
      else c # expandReplacement matched bef aft (d # cs))"

fun replaceStringFrom :: "string \<Rightarrow> string \<Rightarrow> string \<Rightarrow> string \<Rightarrow> string" where
  "replaceStringFrom pat repl b [] =
     (if pat = [] then expandReplacement pat (rev b) [] repl else [])"
| "replaceStringFrom pat repl b (c # cs) =
     (if startsWith (c # cs) pat
      then expandReplacement pat (rev b) (drop (length pat) (c # cs)) repl @ drop (length pat) (c # cs)
      else c # replaceStringFrom pat repl (c # b) cs)"

definition replaceString :: "string \<Rightarrow> string \<Rightarrow> string \<Rightarrow> string" where
  "replaceString pat repl s = replaceStringFrom pat repl [] s"

text \<open>\<open>codeBlockPlaceholders.forEach((codeBlock, index) => ...)\<close>\<close>

fun restoreForLists :: "nat \<Rightarrow> string list \<Rightarrow> string \<Rightarrow> string" where
  "restoreForLists index [] s = s"
| "restoreForLists index (codeBlock # cbs) s =
     restoreForLists (Suc index) cbs (replaceString (listPlaceholder index) codeBlock s)"

definition fixListIndentation :: "string \<Rightarrow> string" where
  "fixListIndentation s =
     (let (masked, codeBlockPlaceholders) = protectForLists s;
          fixedLines = fixLines None (splitOn NL masked)
      in restoreForLists 0 codeBlockPlaceholders (joinWith [NL] fixedLines))"

subsection \<open>Protecting code from the later rewrites\<close>

text \<open>\<open>/(^|\n)(`{3,})([\s\S]*?)\2/g\<close>\<close>

definition fenceRe :: regex where
  "fenceRe = Seqs [Grp 1 (Alt Bol (Chr NL)), Grp 2 (AtLeast 3 (Chr BT)), Grp 3 (Lazy Any), Ref 2]"

text \<open>\<open>/(`+)([^`\n]+?)\1/g\<close>\<close>

definition inlineCodeRe :: regex where
  "inlineCodeRe = Seqs [Grp 1 (Plus (Chr BT)), Grp 2 (LazyPlus (NoneOf [BT, NL])), Ref 1]"

definition placeholder :: "nat \<Rightarrow> string" where
  "placeholder i = ''___CODE_BLOCK_'' @ showNat i @ ''___''"

definition protectFenced :: "string list \<Rightarrow> string \<Rightarrow> string \<times> string list" where
  "protectFenced codeBlocks0 s =
     jsReplaceS fenceRe
       (\<lambda>codeBlocks x.
          (let prefix = group x 1;
               codeBlock = drop (length prefix) (whole x)
           in (prefix @ placeholder (length (codeBlocks @ [codeBlock]) - 1), codeBlocks @ [codeBlock])))
       codeBlocks0 s"

definition protectInline :: "string list \<Rightarrow> string \<Rightarrow> string \<times> string list" where
  "protectInline codeBlocks0 s =
     jsReplaceS inlineCodeRe
       (\<lambda>codeBlocks x.
          if strIncludes (whole x) ''___CODE_BLOCK_'' then (whole x, codeBlocks)
          else (placeholder (length (codeBlocks @ [whole x]) - 1), codeBlocks @ [whole x]))
       codeBlocks0 s"

definition protect :: "string \<Rightarrow> string \<times> string list" where
  "protect s = (let (s1, codeBlocks) = protectFenced [] s in protectInline codeBlocks s1)"

text \<open>\<open>/___CODE_BLOCK_(\d+)___/g\<close>, replaced by \<open>codeBlocks[parseInt(id)]\<close>; an index
  beyond the array reads \<open>undefined\<close>, which the replacement writes as that word.\<close>

definition placeholderRe :: regex where
  "placeholderRe = Seqs [lit ''___CODE_BLOCK_'', Grp 1 (Plus Digit), lit ''___'']"

definition codeBlockAt :: "string list \<Rightarrow> nat \<Rightarrow> string" where
  "codeBlockAt codeBlocks i = (if i < length codeBlocks then codeBlocks ! i else ''undefined'')"

definition restore :: "string list \<Rightarrow> string \<Rightarrow> string" where
  "restore codeBlocks s =
     jsReplace placeholderRe (\<lambda>x. codeBlockAt codeBlocks (parseInt (group x 1))) s"

subsection \<open>Block and inline extensions\<close>

text \<open>An attribute value written into the generated markup: \<open>"..."\<close> around it, and
  \<open>.replace(/"/g, '&quot;')\<close> where the source escapes it.\<close>

definition dq :: "string \<Rightarrow> string" where
  "dq s = [DQ] @ s @ [DQ]"

definition escapeQuot :: "string \<Rightarrow> string" where
  "escapeQuot s = jsReplace (Chr DQ) (\<lambda>_. ''&quot;'') s"

text \<open>\<open>/:::chart\s*\r?\n([\s\S]*?)\r?\n:::/g\<close>. The source's \<open>try\<close> around the encoding
  catches the error of a lone surrogate, which no string of this model contains.\<close>

definition chartRe :: regex where
  "chartRe =
     Seqs [lit '':::chart'', Star Space, Opt (Chr CR), Chr NL, Grp 1 (Lazy Any),
           Opt (Chr CR), Chr NL, lit '':::'']"

definition chartStep :: "string \<Rightarrow> string" where
  "chartStep s =
     jsReplace chartRe
       (\<lambda>x. ''<div data-chart-type='' @ dq ''echarts'' @ '' data-chart-data=''
              @ dq (encodeURIComponent (trim (group x 1))) @ ''></div>'')
       s"

text \<open>\<open>/KEY:\s*(\w+)/i\<close> and \<open>/KEY:\s*([^,}]+)/i\<close>\<close>

definition wordAttrRe :: "string \<Rightarrow> regex" where
  "wordAttrRe key = Seqs [liti key, Star Space, Grp 1 (Plus Word)]"

definition valueAttrRe :: "string \<Rightarrow> regex" where
  "valueAttrRe key = Seqs [liti key, Star Space, Grp 1 (Plus (NoneOf '',}''))]"

text \<open>The caption of a video or an image: everything after \<open>caption:\<close> (found with
  \<open>/caption:\s*/i\<close>, 8 characters skipped), cut by
  \<open>/\s*,\s*(KEY1|KEY2|...):.*$/i\<close> at the next attribute and trimmed.\<close>

definition trailingAttrsRe :: "string list \<Rightarrow> regex" where
  "trailingAttrsRe keys =
     Seqs [Star Space, Chr CHR '','', Star Space, Grp 1 (Alts (map liti keys)), Chr CHR '':'',
           Star Dot, Eol]"

definition captionOf :: "string list \<Rightarrow> string \<Rightarrow> string" where
  "captionOf keys attrText =
     (case jsMatch (Seqs [liti ''caption:'', Star Space]) attrText of
        None \<Rightarrow> []
      | Some x \<Rightarrow>
          (let captionIndex = length (pre x);
               afterCaption = drop (captionIndex + 8) attrText
           in trim (jsReplace1 (trailingAttrsRe keys) (\<lambda>_. []) afterCaption)))"

record VideoAttrs =
  width :: string
  align :: string
  autoplay :: bool
  controls :: bool
  loop :: bool
  muted :: bool
  caption :: string

definition parseVideoAttrs :: "string \<Rightarrow> VideoAttrs" where
  "parseVideoAttrs attrText =
     (let widthMatch = jsMatch (valueAttrRe ''width:'') attrText;
          alignMatch = jsMatch (wordAttrRe ''align:'') attrText;
          autoplayMatch = jsMatch (wordAttrRe ''autoplay:'') attrText;
          controlsMatch = jsMatch (wordAttrRe ''controls:'') attrText;
          loopMatch = jsMatch (wordAttrRe ''loop:'') attrText;
          mutedMatch = jsMatch (wordAttrRe ''muted:'') attrText
      in \<lparr>width = (case widthMatch of Some x \<Rightarrow> trim (group x 1) | None \<Rightarrow> []),
          align = (case alignMatch of Some x \<Rightarrow> toLowerCase (group x 1) | None \<Rightarrow> ''center''),
          autoplay = (case autoplayMatch of Some x \<Rightarrow> toLowerCase (group x 1) = ''true'' | None \<Rightarrow> False),
          controls = (case controlsMatch of Some x \<Rightarrow> toLowerCase (group x 1) \<noteq> ''false'' | None \<Rightarrow> True),
          loop = (case loopMatch of Some x \<Rightarrow> toLowerCase (group x 1) = ''true'' | None \<Rightarrow> False),
          muted = (case mutedMatch of Some x \<Rightarrow> toLowerCase (group x 1) = ''true'' | None \<Rightarrow> False),
          caption = captionOf [''align'', ''width'', ''autoplay'', ''controls'', ''loop'', ''muted''] attrText\<rparr>)"

definition buildVideoAttrs :: "string \<Rightarrow> VideoAttrs \<Rightarrow> string" where
  "buildVideoAttrs url a =
     ''data-video-url='' @ dq (escapeQuot url)
     @ '' data-video-align='' @ dq (align a)
     @ (if width a \<noteq> [] then '' data-video-width='' @ dq (width a) else [])
     @ (if autoplay a then '' data-video-autoplay='' @ dq ''true'' else [])
     @ (if \<not> controls a then '' data-video-controls='' @ dq ''false'' else [])
     @ (if loop a then '' data-video-loop='' @ dq ''true'' else [])
     @ (if muted a then '' data-video-muted='' @ dq ''true'' else [])
     @ (if caption a \<noteq> [] then '' data-video-caption='' @ dq (escapeQuot (caption a)) else [])"

text \<open>The two shapes of a block with attributes:
  \<open>/:::KIND\{([^}]*)\}\r?\n([\s\S]*?)\r?\n:::/g\<close> and
  \<open>/:::KIND\{([^}]*)\}([^\n]+?):::/g\<close>.\<close>

definition multiLineBlockRe :: "string \<Rightarrow> regex" where
  "multiLineBlockRe kind =
     Seqs [lit ('':::'' @ kind @ ''{''), Grp 1 (Star (NoneOf ''}'')), Chr CHR ''}'',
           Opt (Chr CR), Chr NL, Grp 2 (Lazy Any), Opt (Chr CR), Chr NL, lit '':::'']"

definition singleLineBlockRe :: "string \<Rightarrow> regex" where
  "singleLineBlockRe kind =
     Seqs [lit ('':::'' @ kind @ ''{''), Grp 1 (Star (NoneOf ''}'')), Chr CHR ''}'',
           Grp 2 (LazyPlus (NoneOf [NL])), lit '':::'']"

definition videoCallback :: "mres \<Rightarrow> string" where
  "videoCallback x =
     (let cleanUrl = trim (group x 2)
      in if cleanUrl = [] then whole x
         else ''<div '' @ buildVideoAttrs cleanUrl (parseVideoAttrs (group x 1))
              @ '' class='' @ dq ''video-block'' @ ''></div>'')"

definition videoStep :: "string \<Rightarrow> string" where
  "videoStep s =
     jsReplace (singleLineBlockRe ''video'') videoCallback
       (jsReplace (multiLineBlockRe ''video'') videoCallback s)"

definition validTypes :: "string list" where
  "validTypes = [''info'', ''success'', ''warning'', ''error'']"

record AlertAttrs =
  normalizedType :: string
  title :: string

definition parseAlertAttrs :: "string \<Rightarrow> AlertAttrs" where
  "parseAlertAttrs attrText =
     (let typeMatch = jsMatch (wordAttrRe ''type:'') attrText;
          titleMatch = jsMatch (valueAttrRe ''title:'') attrText;
          ty = (case typeMatch of Some x \<Rightarrow> toLowerCase (group x 1) | None \<Rightarrow> ''info'')
      in \<lparr>normalizedType = (if ty \<in> set validTypes then ty else ''info''),
          title = (case titleMatch of Some x \<Rightarrow> trim (group x 1) | None \<Rightarrow> [])\<rparr>)"

definition buildAlertHtml :: "string \<Rightarrow> string \<Rightarrow> string \<Rightarrow> string" where
  "buildAlertHtml ty ttl body =
     (let titleAttr = (if ttl \<noteq> [] then '' data-alert-title='' @ dq (escapeQuot ttl) else [])
      in [NL] @ ''<div data-alert-type='' @ dq ty @ titleAttr
         @ '' class='' @ dq (''alert-block alert-'' @ ty) @ ''>'' @ [NL, NL] @ body @ [NL, NL]
         @ ''</div>'' @ [NL])"

definition alertCallback :: "mres \<Rightarrow> string" where
  "alertCallback x =
     (let a = parseAlertAttrs (group x 1);
          cleanContent = trim (group x 2)
      in if cleanContent = [] then whole x
         else buildAlertHtml (normalizedType a) (title a) cleanContent)"

definition alertStep :: "string \<Rightarrow> string" where
  "alertStep s =
     jsReplace (singleLineBlockRe ''alert'') alertCallback
       (jsReplace (multiLineBlockRe ''alert'') alertCallback s)"

text \<open>\<open>/==([^=]+)==/g\<close>, \<open>/\^([^^]+)\^/g\<close>, \<open>/(?<!~)~([^~\n]+)~(?!~)/g\<close>; the replacement
  strings \<open><mark>$1</mark>\<close> and the like put group 1 between the tags.\<close>

definition highlightStep :: "string \<Rightarrow> string" where
  "highlightStep s =
     jsReplace (Seqs [lit ''=='', Grp 1 (Plus (NoneOf ''='')), lit ''==''])
       (\<lambda>x. ''<mark>'' @ group x 1 @ ''</mark>'') s"

definition superscriptStep :: "string \<Rightarrow> string" where
  "superscriptStep s =
     jsReplace (Seqs [Chr CHR ''^'', Grp 1 (Plus (NoneOf ''^'')), Chr CHR ''^''])
       (\<lambda>x. ''<sup>'' @ group x 1 @ ''</sup>'') s"

definition subscriptStep :: "string \<Rightarrow> string" where
  "subscriptStep s =
     jsReplace (Seqs [NotBehind CHR ''~'', Chr CHR ''~'', Grp 1 (Plus (NoneOf [CHR ''~'', NL])),
                      Chr CHR ''~'', NotAhead CHR ''~''])
       (\<lambda>x. ''<sub>'' @ group x 1 @ ''</sub>'') s"

text \<open>\<open>/!\[([^\]]*)\]\(([^)]+)\)\s*\{([^}]+)\}/g\<close>\<close>

definition imageRe :: regex where
  "imageRe =
     Seqs [lit ''!['', Grp 1 (Star (NoneOf '']'')), lit '']('', Grp 2 (Plus (NoneOf '')'')),
           Chr CHR '')'', Star Space, Chr CHR ''{'', Grp 3 (Plus (NoneOf ''}'')), Chr CHR ''}'']"

definition imageCallback :: "mres \<Rightarrow> string" where
  "imageCallback x =
     (let alt = group x 1; url = group x 2; attrText = group x 3;
          alignMatch = jsMatch (wordAttrRe ''align:'') attrText;
          widthMatch = jsMatch (valueAttrRe ''width:'') attrText;
          cap = captionOf [''align'', ''width''] attrText;
          al = (case alignMatch of Some y \<Rightarrow> toLowerCase (group y 1) | None \<Rightarrow> ''center'');
          wd = (case widthMatch of Some y \<Rightarrow> trim (group y 1) | None \<Rightarrow> []);
          dataAttrs = ''data-image-align='' @ dq al
            @ (if wd \<noteq> [] then '' data-image-width='' @ dq wd else [])
            @ (if cap \<noteq> [] then '' data-image-caption='' @ dq (escapeQuot cap) else [])
      in ''<img src='' @ dq url @ '' alt='' @ dq (escapeQuot alt) @ '' '' @ dataAttrs @ '' />'')"

definition imageStep :: "string \<Rightarrow> string" where
  "imageStep s = jsReplace imageRe imageCallback s"

text \<open>\<open>/\[([^\]]+)\]\(([^)]+?)\s+"([^"]+)"\)/g\<close>\<close>

definition titleLinkRe :: regex where
  "titleLinkRe =
     Seqs [Chr CHR ''['', Grp 1 (Plus (NoneOf '']'')), lit '']('', Grp 2 (LazyPlus (NoneOf '')'')),
           Plus Space, Chr DQ, Grp 3 (Plus (NoneOf [DQ])), Chr DQ, Chr CHR '')'']"

definition titleLinkStep :: "string \<Rightarrow> string" where
  "titleLinkStep s =
     jsReplace titleLinkRe
       (\<lambda>x. (let escapedTitle = jsReplace (Chr SQ) (\<lambda>_. ''&#39;'') (escapeQuot (group x 3))
              in ''<a href='' @ dq (group x 2) @ '' data-link-title='' @ dq escapedTitle @ ''>''
                 @ group x 1 @ ''</a>''))
       s"

text \<open>\<open>/\[([^\]]+)\]\(([^)]+)\)\s*\{([^}]+)\}/g\<close>, replaced by
  \<open><a href="$2" data-icon="$3">$1</a>\<close>.\<close>

definition iconLinkRe :: regex where
  "iconLinkRe =
     Seqs [Chr CHR ''['', Grp 1 (Plus (NoneOf '']'')), lit '']('', Grp 2 (Plus (NoneOf '')'')),
           Chr CHR '')'', Star Space, Chr CHR ''{'', Grp 3 (Plus (NoneOf ''}'')), Chr CHR ''}'']"

definition iconLinkStep :: "string \<Rightarrow> string" where
  "iconLinkStep s =
     jsReplace iconLinkRe
       (\<lambda>x. ''<a href='' @ dq (group x 2) @ '' data-icon='' @ dq (group x 3) @ ''>''
             @ group x 1 @ ''</a>'')
       s"

text \<open>The chat block: \<open>/:::chat\s*\r?\n([\s\S]*?)\r?\n:::/g\<close>, then
  \<open>/:::chat\s*\r?\n([\s\S]*?):::/g\<close>.\<close>

definition chatRe1 :: regex where
  "chatRe1 =
     Seqs [lit '':::chat'', Star Space, Opt (Chr CR), Chr NL, Grp 1 (Lazy Any),
           Opt (Chr CR), Chr NL, lit '':::'']"

definition chatRe2 :: regex where
  "chatRe2 =
     Seqs [lit '':::chat'', Star Space, Opt (Chr CR), Chr NL, Grp 1 (Lazy Any), lit '':::'']"

definition chatDiv :: "string \<Rightarrow> string" where
  "chatDiv body =
     ''<div data-chat='' @ dq ''true'' @ '' data-chat-content='' @ dq (encodeURIComponent body)
     @ ''></div>''"

definition chatStep :: "string \<Rightarrow> string" where
  "chatStep s =
     jsReplace chatRe2
       (\<lambda>x. if strIncludes (whole x) (''data-chat='' @ dq ''true'') then whole x
             else (let cleanContent =
                         trim (jsReplace1 (Seqs [lit '':::'', Star Space, Eol]) (\<lambda>_. []) (group x 1))
                   in if cleanContent = [] then whole x else chatDiv cleanContent))
       (jsReplace chatRe1
          (\<lambda>x. (let trimmedContent = trim (group x 1)
                 in if trimmedContent = [] then whole x else chatDiv trimmedContent))
          s)"

text \<open>The tabs block: \<open>/:::tabs\s*\r?\n([\s\S]*?):::/g\<close>, its body split by
  \<open>/@tab\s+([^\n\r]+)\r?\n/\<close>. The loop reads \<open>parts[i]\<close> and \<open>parts[i+1]\<close> from
  \<open>i = 1\<close> in steps of two; \<open>tabParts\<close> gets the parts from index 1.\<close>

definition restoreIn :: "string list \<Rightarrow> string \<Rightarrow> string" where
  "restoreIn codeBlocks s = restore codeBlocks s"

fun tabParts :: "string list \<Rightarrow> string list \<Rightarrow> string" where
  "tabParts codeBlocks [] = []"
| "tabParts codeBlocks (lbl # ps) =
     (let tabContent = restoreIn codeBlocks (case ps of [] \<Rightarrow> [] | c # _ \<Rightarrow> c)
      in ''<div data-tab-label='' @ dq (escapeQuot (trim lbl)) @ '' data-tab-content=''
         @ dq (encodeURIComponent tabContent) @ ''></div>'' @ [NL]
         @ tabParts codeBlocks (drop 1 ps))"

definition tabsStep :: "string list \<Rightarrow> string \<Rightarrow> string" where
  "tabsStep codeBlocks s =
     jsReplace (Seqs [lit '':::tabs'', Star Space, Opt (Chr CR), Chr NL, Grp 1 (Lazy Any), lit '':::''])
       (\<lambda>x. (let parts = jsSplit (Seqs [lit ''@tab'', Plus Space, Grp 1 (Plus (NoneOf [NL, CR])),
                                        Opt (Chr CR), Chr NL]) [1] (group x 1)
              in ''<div data-tabs='' @ dq ''true'' @ ''>'' @ [NL]
                 @ tabParts codeBlocks (drop 1 parts) @ ''</div>''))
       s"

text \<open>The link-card block: \<open>/:::link-card\{([^}]+)\}\s*\r?\n?([\s\S]*?):::/g\<close>.\<close>

definition linkCardRe :: regex where
  "linkCardRe =
     Seqs [lit '':::link-card{'', Grp 1 (Plus (NoneOf ''}'')), Chr CHR ''}'', Star Space,
           Opt (Chr CR), Opt (Chr NL), Grp 2 (Lazy Any), lit '':::'']"

definition attrValue :: "string \<Rightarrow> string \<Rightarrow> string" where
  "attrValue key attrText =
     (case jsMatch (quotedAttrRe key) attrText of Some x \<Rightarrow> trim (group x 1) | None \<Rightarrow> [])"

definition linkCardCallback :: "mres \<Rightarrow> string" where
  "linkCardCallback x =
     (let attrText = group x 1;
          url = attrValue ''url:'' attrText;
          ttl = attrValue ''title:'' attrText;
          description = attrValue ''description:'' attrText;
          image = attrValue ''image:'' attrText
      in if url = [] then whole x
         else (let finalTitle = (if ttl \<noteq> [] then ttl else trim (group x 2))
               in ''<div data-link-card='' @ dq ''true''
                  @ '' data-link-url='' @ dq (encodeURIComponent url)
                  @ '' data-link-title='' @ dq (encodeURIComponent finalTitle)
                  @ '' data-link-description='' @ dq (encodeURIComponent description)
                  @ '' data-link-image='' @ dq (encodeURIComponent image) @ ''></div>''))"

definition linkCardStep :: "string \<Rightarrow> string" where
  "linkCardStep s = jsReplace linkCardRe linkCardCallback s"

text \<open>The timeline block: \<open>/:::timeline\s*\r?\n([\s\S]*?):::/g\<close>, its body split by
  \<open>/@item\s+([^\n\r]+)\r?\n/\<close>; the header of an item is \<open>date | title\<close>, a date
  (\<open>/^\d{4}[-/]\d{1,2}[-/]\d{1,2}/\<close> or \<open>/^\d{4}/\<close>) or a title.\<close>

definition itemHeader :: "string \<Rightarrow> string \<times> string" where
  "itemHeader header =
     (if CHR ''|'' \<in> set header
      then (let hs = map trim (splitOn CHR ''|'' header)
            in (case hs of [] \<Rightarrow> [] | d # _ \<Rightarrow> d, case drop 1 hs of [] \<Rightarrow> [] | t # _ \<Rightarrow> t))
      else if jsTest (Seqs [Bol, Times 4 Digit, OneOf ''-/'', Digit, Opt Digit, OneOf ''-/'',
                            Digit, Opt Digit]) header
              \<or> jsTest (Seqs [Bol, Times 4 Digit]) header
      then (header, [])
      else ([], header))"

fun timelineParts :: "string list \<Rightarrow> string list \<Rightarrow> string" where
  "timelineParts codeBlocks [] = []"
| "timelineParts codeBlocks (header # ps) =
     (let (date, ttl) = itemHeader (trim header);
          itemContent = restoreIn codeBlocks (case ps of [] \<Rightarrow> [] | c # _ \<Rightarrow> c)
      in ''<div data-timeline-date='' @ dq (escapeQuot date)
         @ '' data-timeline-title='' @ dq (escapeQuot ttl)
         @ '' data-timeline-content='' @ dq (encodeURIComponent itemContent) @ ''></div>'' @ [NL]
         @ timelineParts codeBlocks (drop 1 ps))"

definition timelineStep :: "string list \<Rightarrow> string \<Rightarrow> string" where
  "timelineStep codeBlocks s =
     jsReplace (Seqs [lit '':::timeline'', Star Space, Opt (Chr CR), Chr NL, Grp 1 (Lazy Any), lit '':::''])
       (\<lambda>x. (let parts = jsSplit (Seqs [lit ''@item'', Plus Space, Grp 1 (Plus (NoneOf [NL, CR])),
                                        Opt (Chr CR), Chr NL]) [1] (group x 1)
              in ''<div data-timeline='' @ dq ''true'' @ ''>'' @ [NL]
                 @ timelineParts codeBlocks (drop 1 parts) @ ''</div>''))
       s"

subsection \<open>The whole transform\<close>

text \<open>The rewrites between protecting the code and restoring it, in the order of the
  source.\<close>

definition expandExtensions :: "string list \<Rightarrow> string \<Rightarrow> string" where
  "expandExtensions codeBlocks s =
     timelineStep codeBlocks (chatStep (linkCardStep (tabsStep codeBlocks (chatStep
       (iconLinkStep (titleLinkStep (imageStep (subscriptStep (superscriptStep (highlightStep
         (alertStep (videoStep (chartStep s)))))))))))))"

definition processContent :: "string \<Rightarrow> string" where
  "processContent text =
     (if text = [] \<or> length (trim text) = 0 then text
      else (let (masked, codeBlocks) = protect (fixListIndentation text)
            in restore codeBlocks (expandExtensions codeBlocks masked)))"

section \<open>MarkdownRenderer: the \<open>div\<close> component\<close>




record VideoElement =
  src :: string
  controlsProp :: bool
  autoPlayProp :: bool
  loopProp :: bool
  mutedProp :: bool
  alignClass :: string
  widthStyle :: "string option"
  preload :: string



section \<open>Notions used to state the properties\<close>


text \<open>The groups of a regular expression, and the relation between the state in which the
  matcher starts on an expression and a state it hands to its continuation: some text \<open>w\<close>
  was consumed, and the new groups are groups of the expression holding parts of the text
  that was ahead.\<close>

primrec grps :: "regex \<Rightarrow> nat set" where
  "grps Eps = {}"
| "grps (Chr c) = {}"
| "grps (Cls p) = {}"
| "grps (Seq a b) = grps a \<union> grps b"
| "grps (Alt a b) = grps a \<union> grps b"
| "grps (Star a) = grps a"
| "grps (Lazy a) = grps a"
| "grps (Grp n a) = insert n (grps a)"
| "grps (Ref n) = {}"
| "grps Bol = {}"
| "grps Eol = {}"
| "grps (NotBehind c) = {}"
| "grps (NotAhead c) = {}"

definition ext :: "nat set \<Rightarrow> st \<Rightarrow> st \<Rightarrow> bool" where
  "ext G s s' \<longleftrightarrow>
     (\<exists>w. rest s = w @ rest s' \<and> behind s' = rev w @ behind s) \<and>
     (\<exists>ns. caps s' = ns @ caps s \<and> (\<forall>(g, v)\<in>set ns. g \<in> G \<and> (\<exists>a b. rest s = a @ v @ b)))"




text \<open>A text in which code has been replaced by placeholders, seen as a list of tokens:
  a character of the document, or the placeholder of the code block with a given index.
  \<open>render\<close> is the text with the placeholders, \<open>orig\<close> the text with the code blocks
  in their place, \<open>litPrefix\<close> the characters before the first placeholder and
  \<open>afterRun\<close> the tokens from the first placeholder on. In a clean token list no run of
  characters starts, at any of its positions, with the text that starts a placeholder.\<close>

datatype tok = TChar char | THole nat

fun render :: "tok list \<Rightarrow> string" where
  "render [] = []"
| "render (TChar c # ts) = c # render ts"
| "render (THole i # ts) = placeholder i @ render ts"

fun orig :: "string list \<Rightarrow> tok list \<Rightarrow> string" where
  "orig cbs [] = []"
| "orig cbs (TChar c # ts) = c # orig cbs ts"
| "orig cbs (THole i # ts) = codeBlockAt cbs i @ orig cbs ts"

fun litPrefix :: "tok list \<Rightarrow> string" where
  "litPrefix [] = []"
| "litPrefix (TChar c # ts) = c # litPrefix ts"
| "litPrefix (THole i # ts) = []"

fun afterRun :: "tok list \<Rightarrow> tok list" where
  "afterRun [] = []"
| "afterRun (TChar c # ts) = afterRun ts"
| "afterRun (THole i # ts) = THole i # ts"

fun cleanT :: "tok list \<Rightarrow> bool" where
  "cleanT [] = True"
| "cleanT (t # ts) = (\<not> startsWith (litPrefix (t # ts)) ''___CODE_BLOCK_'' \<and> cleanT ts)"

section \<open>Properties\<close>

subsection \<open>The matcher and the replace functions\<close>

declare replG.simps [simp del]

lemma startsWith_Nil [simp]: "startsWith [] p = (p = [])"
  by (cases p) simp_all

lemma startsWith_append: "startsWith (p @ s) p"
  by (induction p) simp_all

lemma startsWith_iff: "startsWith s p \<longleftrightarrow> take (length p) s = p"
  by (induction s p rule: startsWith.induct) auto

lemma advs_rest: "rest (advs n s) = drop n (rest s)"
proof (induction n arbitrary: s)
  case 0 then show ?case by simp
next
  case (Suc n)
  then show ?case by (simp add: adv_def drop_Suc)
qed

lemma advs_caps: "caps (advs n s) = caps s"
  by (induction n arbitrary: s) (simp_all add: adv_def)

lemma advs_behind: "n \<le> length (rest s) \<Longrightarrow> behind (advs n s) = rev (take n (rest s)) @ behind s"
proof (induction n arbitrary: s)
  case 0 then show ?case by simp
next
  case (Suc n)
  then obtain x xs where r: "rest s = x # xs" by (cases "rest s") auto
  with Suc show ?case by (simp add: adv_def)
qed

lemma m_lit:
  "m (lit p) k s = (if startsWith (rest s) p then k (advs (length p) s) else None)"
proof (induction p arbitrary: s)
  case Nil
  then show ?case by (simp add: lit_def)
next
  case (Cons c p)
  have "lit (c # p) = Seq (Chr c) (lit p)" by (simp add: lit_def)
  then show ?case using Cons[of "adv s"]
    by (cases "rest s") (auto simp: adv_def)
qed

lemma m_liti:
  "m (liti p) k s =
     (if startsWith (toLowerCase (rest s)) (toLowerCase p) then k (advs (length p) s) else None)"
proof (induction p arbitrary: s)
  case Nil
  then show ?case by (simp add: liti_def toLowerCase_def)
next
  case (Cons c p)
  have "liti (c # p) = Seq (Cls (\<lambda>x. toLowerChar x = toLowerChar c)) (liti p)" by (simp add: liti_def)
  then show ?case using Cons[of "adv s"]
    by (cases "rest s") (auto simp: adv_def toLowerCase_def)
qed

lemma Seqs_Cons: "Seqs (r # rs) = Seq r (Seqs rs)"
  by (simp add: Seqs_def)

lemma Seqs_Nil: "Seqs [] = Eps"
  by (simp add: Seqs_def)

lemma searchFrom_None:
  "(\<And>b' s'. matchAt r b' s' = None) \<Longrightarrow> searchFrom r b s = None"
  by (induction s arbitrary: b) simp_all

lemma strIncludes_Cons: "strIncludes cs p \<Longrightarrow> strIncludes (c # cs) p"
  by simp

lemma searchFrom_liti_None:
  "\<not> strIncludes (toLowerCase s) (toLowerCase key) \<Longrightarrow>
   searchFrom (Seqs (liti key # rs)) b s = None"
proof (induction s arbitrary: b)
  case Nil
  then show ?case by (simp add: matchAt_def Seqs_Cons m_liti toLowerCase_def)
next
  case (Cons c cs)
  then show ?case by (simp add: matchAt_def Seqs_Cons m_liti toLowerCase_def)
qed

lemma jsMatch_liti_None:
  "\<not> strIncludes (toLowerCase s) (toLowerCase key) \<Longrightarrow> jsMatch (Seqs (liti key # rs)) s = None"
  by (simp add: jsMatch_def searchFrom_liti_None)

lemma searchFrom_lit_None:
  "\<not> strIncludes s key \<Longrightarrow> searchFrom (Seqs (lit key # rs)) b s = None"
proof (induction s arbitrary: b)
  case Nil
  then show ?case by (simp add: matchAt_def Seqs_Cons m_lit)
next
  case (Cons c cs)
  then show ?case by (simp add: matchAt_def Seqs_Cons m_lit)
qed

lemma ext_refl: "ext G s s"
  by (auto simp: ext_def)

lemma ext_mono: "ext G s s' \<Longrightarrow> G \<subseteq> H \<Longrightarrow> ext H s s'"
  by (fastforce simp: ext_def)

lemma ext_trans:
  assumes "ext G s s1" "ext H s1 s2"
  shows "ext (G \<union> H) s s2"
proof -
  from assms(1) obtain w ns where 1: "rest s = w @ rest s1" "behind s1 = rev w @ behind s"
    "caps s1 = ns @ caps s" "\<forall>(g, v)\<in>set ns. g \<in> G \<and> (\<exists>a b. rest s = a @ v @ b)"
    by (auto simp: ext_def)
  from assms(2) obtain w' ns' where 2: "rest s1 = w' @ rest s2" "behind s2 = rev w' @ behind s1"
    "caps s2 = ns' @ caps s1" "\<forall>(g, v)\<in>set ns'. g \<in> H \<and> (\<exists>a b. rest s1 = a @ v @ b)"
    by (auto simp: ext_def)
  have a: "rest s = (w @ w') @ rest s2 \<and> behind s2 = rev (w @ w') @ behind s"
    using 1 2 by simp
  have b: "caps s2 = (ns' @ ns) @ caps s" using 1 2 by simp
  have c: "\<forall>(g, v)\<in>set (ns' @ ns). g \<in> G \<union> H \<and> (\<exists>a b. rest s = a @ v @ b)"
  proof (clarsimp, intro conjI)
    fix g v assume gv: "(g, v) \<in> set ns' \<or> (g, v) \<in> set ns"
    show "g \<in> G \<or> g \<in> H" using gv 1(4) 2(4) by auto
    show "\<exists>a b. rest s = a @ v @ b"
    proof (cases "(g, v) \<in> set ns")
      case True
      then show ?thesis using 1(4) by auto
    next
      case False
      with gv have "(g, v) \<in> set ns'" by simp
      with 2(4) obtain a b where "rest s1 = a @ v @ b" by auto
      then have "rest s = (w @ a) @ v @ b" using 1(1) by simp
      then show ?thesis by blast
    qed
  qed
  show ?thesis unfolding ext_def using a b c by blast
qed

lemma ext_adv: "rest s = x # xs \<Longrightarrow> ext G s (adv s)"
  by (auto simp: ext_def adv_def)

lemma ext_advs: "startsWith (rest s) v \<Longrightarrow> ext G s (advs (length v) s)"
proof -
  assume a: "startsWith (rest s) v"
  then have t: "take (length v) (rest s) = v" by (simp add: startsWith_iff)
  then have l: "length v \<le> length (rest s)"
    by (metis length_take min.absorb_iff2 nat_le_linear take_all)
  have "rest s = v @ rest (advs (length v) s)"
    using t by (metis advs_rest append_take_drop_id)
  moreover have "behind (advs (length v) s) = rev v @ behind s"
    using advs_behind[OF l] t by simp
  moreover have "caps (advs (length v) s) = [] @ caps s" by (simp add: advs_caps)
  ultimately show ?thesis unfolding ext_def by fastforce
qed

lemma repG_inv:
  assumes f: "\<And>k s res. f k s = Some res \<Longrightarrow> \<exists>s'. ext G s s' \<and> k s' = Some res"
  shows "repG n f k s = Some res \<Longrightarrow> \<exists>s'. ext G s s' \<and> k s' = Some res"
proof (induction n arbitrary: s)
  case 0
  then show ?case using ext_refl by auto
next
  case (Suc n)
  let ?k = "\<lambda>s'. if length (rest s') < length (rest s) then repG n f k s' else None"
  show ?case
  proof (cases "f ?k s")
    case None
    with Suc.prems have "k s = Some res" by simp
    then show ?thesis using ext_refl by blast
  next
    case (Some r)
    with Suc.prems have "f ?k s = Some res" by simp
    from f[OF this] obtain s1 where s1: "ext G s s1" "?k s1 = Some res" by blast
    then have "repG n f k s1 = Some res" by (auto split: if_splits)
    from Suc.IH[OF this] obtain s2 where "ext G s1 s2" "k s2 = Some res" by blast
    with s1(1) show ?thesis using ext_trans[of G s s1 G s2] by auto
  qed
qed

lemma repL_inv:
  assumes f: "\<And>k s res. f k s = Some res \<Longrightarrow> \<exists>s'. ext G s s' \<and> k s' = Some res"
  shows "repL n f k s = Some res \<Longrightarrow> \<exists>s'. ext G s s' \<and> k s' = Some res"
proof (induction n arbitrary: s)
  case 0
  then show ?case using ext_refl by auto
next
  case (Suc n)
  let ?k = "\<lambda>s'. if length (rest s') < length (rest s) then repL n f k s' else None"
  show ?case
  proof (cases "k s")
    case (Some r)
    with Suc.prems have "k s = Some res" by simp
    then show ?thesis using ext_refl by blast
  next
    case None
    with Suc.prems have "f ?k s = Some res" by simp
    from f[OF this] obtain s1 where s1: "ext G s s1" "?k s1 = Some res" by blast
    then have "repL n f k s1 = Some res" by (auto split: if_splits)
    from Suc.IH[OF this] obtain s2 where "ext G s1 s2" "k s2 = Some res" by blast
    with s1(1) show ?thesis using ext_trans[of G s s1 G s2] by auto
  qed
qed

lemma ext_grp:
  assumes "ext G s s1"
  shows "ext (insert n G) s (s1\<lparr>caps := (n, take (length (rest s) - length (rest s1)) (rest s)) # caps s1\<rparr>)"
proof -
  from assms obtain w ns where 1: "rest s = w @ rest s1" "behind s1 = rev w @ behind s"
    "caps s1 = ns @ caps s" "\<forall>(g, v)\<in>set ns. g \<in> G \<and> (\<exists>a b. rest s = a @ v @ b)"
    by (auto simp: ext_def)
  have t: "take (length (rest s) - length (rest s1)) (rest s) = w" using 1(1) by simp
  have "rest s = [] @ w @ rest s1" using 1(1) by simp
  then have sub: "\<exists>a b. rest s = a @ w @ b" by blast
  let ?s' = "s1\<lparr>caps := (n, take (length (rest s) - length (rest s1)) (rest s)) # caps s1\<rparr>"
  have a: "rest s = w @ rest ?s' \<and> behind ?s' = rev w @ behind s" using 1 by simp
  have b: "caps ?s' = ((n, w) # ns) @ caps s" using 1 t by simp
  have c: "\<forall>(g, v)\<in>set ((n, w) # ns). g \<in> insert n G \<and> (\<exists>a b. rest s = a @ v @ b)"
    using 1(4) sub by auto
  show ?thesis unfolding ext_def using a b c by blast
qed

lemma m_inv:
  "m r k s = Some res \<Longrightarrow> \<exists>s'. ext (grps r) s s' \<and> k s' = Some res"
proof (induction r arbitrary: k s res)
  case Eps
  then show ?case using ext_refl by auto
next
  case (Chr c)
  then show ?case by (auto split: list.splits if_splits intro: ext_adv)
next
  case (Cls p)
  then show ?case by (auto split: list.splits if_splits intro: ext_adv)
next
  case (Seq a b)
  from Seq.prems have "m a (m b k) s = Some res" by simp
  from Seq.IH(1)[OF this] obtain s1 where s1: "ext (grps a) s s1" "m b k s1 = Some res" by blast
  from Seq.IH(2)[OF s1(2)] obtain s2 where s2: "ext (grps b) s1 s2" "k s2 = Some res" by blast
  then show ?case using ext_trans[OF s1(1) s2(1)] by auto
next
  case (Alt a b)
  show ?case
  proof (cases "m a k s")
    case None
    with Alt.prems have "m b k s = Some res" by simp
    from Alt.IH(2)[OF this] show ?thesis by (auto intro: ext_mono)
  next
    case (Some r)
    with Alt.prems have "m a k s = Some res" by simp
    from Alt.IH(1)[OF this] show ?thesis by (auto intro: ext_mono)
  qed
next
  case (Star a)
  then show ?case using repG_inv[of "m a" "grps a"] by simp
next
  case (Lazy a)
  then show ?case using repL_inv[of "m a" "grps a"] by simp
next
  case (Grp n a)
  let ?k = "\<lambda>s'. k (s'\<lparr>caps := (n, take (length (rest s) - length (rest s')) (rest s)) # caps s'\<rparr>)"
  from Grp.prems have "m a ?k s = Some res" by simp
  from Grp.IH[OF this] obtain s1 where s1: "ext (grps a) s s1" "?k s1 = Some res" by blast
  then show ?case using ext_grp[OF s1(1), of n] by auto
next
  case (Ref n)
  then show ?case
    by (auto split: option.splits if_splits intro: ext_refl ext_advs)
next
  case Bol
  then show ?case by (auto split: if_splits intro: ext_refl)
next
  case Eol
  then show ?case by (auto split: if_splits intro: ext_refl)
next
  case (NotBehind c)
  then show ?case by (auto split: list.splits if_splits intro: ext_refl)
next
  case (NotAhead c)
  then show ?case by (auto split: list.splits if_splits intro: ext_refl)
qed

lemma matchAt_inv:
  assumes "matchAt r b s = Some st"
  shows "\<exists>w. s = w @ rest st \<and> behind st = rev w @ b \<and>
             (\<forall>(g, v)\<in>set (caps st). g \<in> grps r \<and> (\<exists>x y. s = x @ v @ y))"
proof -
  from assms have "m r Some \<lparr>behind = b, rest = s, caps = []\<rparr> = Some st"
    by (simp add: matchAt_def)
  from m_inv[OF this] have "ext (grps r) \<lparr>behind = b, rest = s, caps = []\<rparr> st" by auto
  then show ?thesis by (auto simp: ext_def)
qed

lemma whole_post:
  assumes "matchAt r b s = Some st"
  shows "whole (mkRes b s st) @ rest st = s"
proof -
  from matchAt_inv[OF assms] obtain w where "s = w @ rest st" by blast
  then show ?thesis by (simp add: mkRes_def)
qed

lemma replG_Nil_None:
  "matchAt r b [] = None \<Longrightarrow> replG r f u b [] = ([], u)"
  by (subst replG.simps) simp

lemma replG_Cons_None:
  "matchAt r b (c # cs) = None \<Longrightarrow>
   replG r f u b (c # cs) = (c # fst (replG r f u (c # b) cs), snd (replG r f u (c # b) cs))"
  by (subst replG.simps) (simp add: case_prod_beta)



lemma replG_Some:
  "matchAt r b s = Some st \<Longrightarrow> length (rest st) < length s \<Longrightarrow>
   replG r f u b s =
     (fst (f u (mkRes b s st))
        @ fst (replG r f (snd (f u (mkRes b s st)))
                 (rev (take (length s - length (rest st)) s) @ b) (drop (length s - length (rest st)) s)),
      snd (replG r f (snd (f u (mkRes b s st)))
                 (rev (take (length s - length (rest st)) s) @ b) (drop (length s - length (rest st)) s)))"
  by (subst replG.simps) (simp add: case_prod_beta Let_def)





lemma m_Seq_fun: "m (Seq a b) k = m a (m b k)"
  by (rule ext) simp

lemma m_Eps_fun: "m Eps k = k"
  by (rule ext) simp

subsection \<open>Substrings, absent keys, groups\<close>

lemma startsWith_prefix: "startsWith s p \<longleftrightarrow> (\<exists>y. s = p @ y)"
  by (metis startsWith_iff append_eq_conv_conj append_take_drop_id)

lemma strIncludes_iff: "strIncludes s p \<longleftrightarrow> (\<exists>x y. s = x @ p @ y)"
proof (induction s)
  case Nil
  then show ?case by auto
next
  case (Cons c cs)
  show ?case
  proof
    assume "strIncludes (c # cs) p"
    then consider "startsWith (c # cs) p" | "strIncludes cs p" by auto
    then show "\<exists>x y. c # cs = x @ p @ y"
    proof cases
      case 1
      then obtain y where "c # cs = [] @ p @ y" by (auto simp: startsWith_prefix)
      then show ?thesis by blast
    next
      case 2
      with Cons obtain x y where "cs = x @ p @ y" by blast
      then have "c # cs = (c # x) @ p @ y" by simp
      then show ?thesis by blast
    qed
  next
    assume "\<exists>x y. c # cs = x @ p @ y"
    then obtain x y where xy: "c # cs = x @ p @ y" by blast
    show "strIncludes (c # cs) p"
    proof (cases x)
      case Nil
      with xy have "startsWith (c # cs) p" by (auto simp: startsWith_prefix)
      then show ?thesis by simp
    next
      case (Cons a x')
      with xy have "cs = x' @ p @ y" by simp
      with Cons.IH show ?thesis by auto
    qed
  qed
qed





lemma lower_key [simp]:
  "toLowerCase ''url:'' = ''url:''" "toLowerCase ''type:'' = ''type:''"
  "toLowerCase ''align:'' = ''align:''" "toLowerCase ''autoplay:'' = ''autoplay:''"
  "toLowerCase ''controls:'' = ''controls:''" "toLowerCase ''loop:'' = ''loop:''"
  "toLowerCase ''muted:'' = ''muted:''"
  by code_simp+





subsection \<open>The pattern of an avatar name\<close>

lemma m_UpTo_end:
  assumes k: "\<And>s. (k s \<noteq> None) \<longleftrightarrow> rest s = []"
  shows "(m (UpTo n (Cls p)) k s \<noteq> None) \<longleftrightarrow> (length (rest s) \<le> n \<and> (\<forall>c\<in>set (rest s). p c))"
proof (induction n arbitrary: s)
  case 0
  then show ?case using k by auto
next
  case (Suc n)
  show ?case
  proof (cases "rest s")
    case Nil
    then have "k s \<noteq> None" using k by simp
    with Nil show ?thesis by (auto simp: Opt_def)
  next
    case (Cons x xs)
    then have r: "rest (adv s) = xs" by (simp add: adv_def)
    from Cons have ks: "k s = None" using k[of s] by simp
    show ?thesis
    proof (cases "p x")
      case False
      with Cons ks show ?thesis by (simp add: Opt_def)
    next
      case True
      show ?thesis
      proof (cases "m (UpTo n (Cls p)) k (adv s)")
        case None
        with Suc[of "adv s"] r have "\<not> (length xs \<le> n \<and> (\<forall>c\<in>set xs. p c))" by simp
        with None Cons True ks show ?thesis by (auto simp: Opt_def)
      next
        case (Some a)
        with Suc[of "adv s"] r have "length xs \<le> n \<and> (\<forall>c\<in>set xs. p c)" by simp
        with Some Cons True show ?thesis by (auto simp: Opt_def)
      qed
    qed
  qed
qed

lemma searchFrom_Bol:
  "b \<noteq> [] \<Longrightarrow> searchFrom (Seq Bol r) b s = None"
  by (induction s arbitrary: b) (simp_all add: matchAt_def)

lemma jsTest_Bol:
  "jsTest (Seq Bol r) s \<longleftrightarrow> matchAt (Seq Bol r) [] s \<noteq> None"
  by (cases s) (auto simp: jsTest_def jsMatch_def searchFrom_Bol split: option.splits)

lemma minecraft_pattern:
  "jsTest minecraftNamePattern u \<longleftrightarrow> (3 \<le> length u \<and> length u \<le> 16 \<and> (\<forall>c\<in>set u. isWord c))"
proof -
  have t3: "\<And>r. Times 3 r = Seq r (Seq r (Seq r Eps))"
    by (simp add: eval_nat_numeral)
  define K where "K = m (Seq (UpTo 13 (Cls isWord)) Eol) Some"
  have "\<And>s. (m Eol Some s \<noteq> None) \<longleftrightarrow> rest s = []" by simp
  from m_UpTo_end[of "m Eol Some", OF this]
  have k: "\<And>s. (K s \<noteq> None) \<longleftrightarrow> (length (rest s) \<le> 13 \<and> (\<forall>c\<in>set (rest s). isWord c))"
    unfolding K_def by simp
  have pat: "jsTest minecraftNamePattern u \<longleftrightarrow>
      m (Cls isWord) (m (Cls isWord) (m (Cls isWord) K)) \<lparr>behind = [], rest = u, caps = []\<rparr> \<noteq> None"
    unfolding K_def
    by (simp add: jsTest_Bol minecraftNamePattern_def matchAt_def t3 Word_def m_Seq_fun m_Eps_fun
             del: m.simps(3))
  show ?thesis
  proof (cases u)
    case Nil
    then show ?thesis unfolding pat by simp
  next
    case c1: (Cons a u1)
    show ?thesis
    proof (cases u1)
      case Nil
      with c1 show ?thesis unfolding pat by (simp add: adv_def)
    next
      case c2: (Cons b u2)
      show ?thesis
      proof (cases u2)
        case Nil
        with c1 c2 show ?thesis unfolding pat by (simp add: adv_def)
      next
        case c3: (Cons c u3)
        have "(K \<lparr>behind = [c, b, a], rest = u3, caps = []\<rparr> \<noteq> None)
               \<longleftrightarrow> (length u3 \<le> 13 \<and> (\<forall>x\<in>set u3. isWord x))"
          using k[of "\<lparr>behind = [c, b, a], rest = u3, caps = []\<rparr>"] by simp
        with c1 c2 c3 show ?thesis unfolding pat by (auto simp: adv_def)
      qed
    qed
  qed
qed

lemma encode_word: "\<forall>c\<in>set u. isWord c \<Longrightarrow> encodeURIComponent u = u"
proof (induction u)
  case Nil
  then show ?case by (simp add: encodeURIComponent_def)
next
  case (Cons a u)
  then have "isWord a" by simp
  then have "unreserved a" by (auto simp: isWord_def unreserved_def)
  then have "encodeChar a = [a]" by (simp add: encodeChar_def)
  with Cons show ?case by (simp add: encodeURIComponent_def)
qed

lemma getMinecraftAvatar_char:
  "getMinecraftAvatar u =
     (if 3 \<le> length u \<and> length u \<le> 16 \<and> (\<forall>c\<in>set u. isWord c)
      then ''https://mc-heads.net/avatar/'' @ u else [])"
  by (simp add: getMinecraftAvatar_def minecraft_pattern encode_word)

subsection \<open>Running the matcher on a text that is partly unknown\<close>

declare m.simps [simp del] repG.simps [simp del] repL.simps [simp del]

lemma advs_record:
  "advs (length w) \<lparr>behind = b, rest = w @ t, caps = c\<rparr> = \<lparr>behind = rev w @ b, rest = t, caps = c\<rparr>"
proof (induction w arbitrary: b)
  case Nil
  then show ?case by simp
next
  case (Cons x w)
  then show ?case by (simp add: adv_def)
qed

lemma m_Cls_stop:
  "t = [] \<or> \<not> p (hd t) \<Longrightarrow> m (Cls p) K \<lparr>behind = b, rest = t, caps = c\<rparr> = None"
  by (cases t) (auto simp: m.simps)

lemma m_Cls_go:
  "p x \<Longrightarrow> m (Cls p) K \<lparr>behind = b, rest = x # t, caps = c\<rparr> = K \<lparr>behind = x # b, rest = t, caps = c\<rparr>"
  by (simp add: adv_def m.simps)

lemma repG_cls_longest:
  assumes "\<forall>c\<in>set w. p c" "t = [] \<or> \<not> p (hd t)"
    "k \<lparr>behind = rev w @ b, rest = t, caps = c\<rparr> = Some res" "length w \<le> n"
  shows "repG n (m (Cls p)) k \<lparr>behind = b, rest = w @ t, caps = c\<rparr> = Some res"
  using assms
proof (induction w arbitrary: b n)
  case Nil
  show ?case
  proof (cases n)
    case 0
    with Nil show ?thesis by (simp add: repG.simps)
  next
    case (Suc n')
    have "repG (Suc n') (m (Cls p)) k \<lparr>behind = b, rest = t, caps = c\<rparr>
            = k \<lparr>behind = b, rest = t, caps = c\<rparr>"
      by (simp only: repG.simps m_Cls_stop[where p=p and t=t, OF Nil.prems(2)] option.case)
    then show ?thesis unfolding Suc using Nil.prems(3) by (simp only: rev.simps append_Nil)
  qed
next
  case (Cons x w)
  then obtain n' where n: "n = Suc n'" "length w \<le> n'" by (cases n) auto
  have ih: "repG n' (m (Cls p)) k \<lparr>behind = x # b, rest = w @ t, caps = c\<rparr> = Some res"
    using Cons.IH[of "x # b" n'] Cons.prems n by simp
  have px: "p x" using Cons.prems(1) by simp
  have "repG (Suc n') (m (Cls p)) k \<lparr>behind = b, rest = x # w @ t, caps = c\<rparr> = Some res"
    by (simp only: repG.simps m_Cls_go[where p=p and x=x, OF px]) (simp add: ih)
  then show ?case unfolding n(1) by (simp only: append_Cons)
qed

lemma m_Star_cls:
  assumes "\<forall>c\<in>set w. p c" "t = [] \<or> \<not> p (hd t)"
    "k \<lparr>behind = rev w @ b, rest = t, caps = c\<rparr> = Some res"
  shows "m (Star (Cls p)) k \<lparr>behind = b, rest = w @ t, caps = c\<rparr> = Some res"
  using repG_cls_longest[of w p t k b c res "length (w @ t)"] assms by (simp add: m.simps)

lemma m_Plus_cls:
  assumes "w \<noteq> []" "\<forall>c\<in>set w. p c" "t = [] \<or> \<not> p (hd t)"
    "k \<lparr>behind = rev w @ b, rest = t, caps = c\<rparr> = Some res"
  shows "m (Plus (Cls p)) k \<lparr>behind = b, rest = w @ t, caps = c\<rparr> = Some res"
proof -
  from assms(1) obtain x w' where w: "w = x # w'" by (cases w) auto
  have px: "p x" using assms(2) w by simp
  have "m (Star (Cls p)) k \<lparr>behind = x # b, rest = w' @ t, caps = c\<rparr> = Some res"
    using m_Star_cls[of w' p t k "x # b" c res] assms w by simp
  then have "m (Cls p) (m (Star (Cls p)) k) \<lparr>behind = b, rest = x # w' @ t, caps = c\<rparr> = Some res"
    by (simp only: m_Cls_go[where p=p and x=x, OF px])
  then show ?thesis unfolding Plus_def w by (simp only: m_Seq_fun append_Cons)
qed

lemma m_Grp_fun:
  "m (Grp g a) k s =
     m a (\<lambda>s'. k (s'\<lparr>caps := (g, take (length (rest s) - length (rest s')) (rest s)) # caps s'\<rparr>)) s"
  by (simp add: m.simps)

lemma m_Grp_Plus_cls:
  assumes "w \<noteq> []" "\<forall>c\<in>set w. p c" "t = [] \<or> \<not> p (hd t)"
    "k \<lparr>behind = rev w @ b, rest = t, caps = (g, w) # c\<rparr> = Some res"
  shows "m (Grp g (Plus (Cls p))) k \<lparr>behind = b, rest = w @ t, caps = c\<rparr> = Some res"
proof -
  let ?K = "\<lambda>s'. k (s'\<lparr>caps := (g, take (length (w @ t) - length (rest s')) (w @ t)) # caps s'\<rparr>)"
  have "?K \<lparr>behind = rev w @ b, rest = t, caps = c\<rparr> = Some res" using assms(4) by simp
  from m_Plus_cls[of w p t ?K b c res, OF assms(1,2,3) this]
  show ?thesis by (simp add: m_Grp_fun)
qed






subsection \<open>Text without extension syntax\<close>



lemma suffix_set: "d = x @ s \<Longrightarrow> c \<notin> set d \<Longrightarrow> c \<notin> set s"
  by auto






















lemma Times3: "Times 3 r = Seq r (Seq r (Seq r Eps))"
  by (simp add: eval_nat_numeral)
















subsection \<open>Placeholders and their restoration\<close>

declare showNat.simps [simp del]

lemma of_char_digitChar: "k < 10 \<Longrightarrow> (of_char (digitChar k) :: nat) = 48 + k"
  by (simp add: digitChar_def)

lemma isDigit_digitChar: "k < 10 \<Longrightarrow> isDigit (digitChar k)"
  by (simp add: isDigit_def of_char_digitChar)

lemma digitVal_digitChar: "k < 10 \<Longrightarrow> digitVal (digitChar k) = k"
  by (simp add: digitVal_def of_char_digitChar)

lemma showNat_digits: "\<forall>c\<in>set (showNat n). isDigit c"
proof (induction n rule: showNat.induct)
  case (1 n)
  show ?case
  proof (cases "n < 10")
    case True
    then show ?thesis by (subst showNat.simps) (simp add: isDigit_digitChar)
  next
    case False
    then show ?thesis using 1 by (subst showNat.simps) (simp add: isDigit_digitChar)
  qed
qed

lemma showNat_nonempty: "showNat n \<noteq> []"
  by (subst showNat.simps) simp

lemma parseInt_snoc: "parseInt (ds @ [d]) = 10 * parseInt ds + digitVal d"
  by (simp add: parseInt_def)

lemma parseInt_showNat: "parseInt (showNat n) = n"
proof (induction n rule: showNat.induct)
  case (1 n)
  show ?case
  proof (cases "n < 10")
    case True
    then show ?thesis by (subst showNat.simps) (simp add: parseInt_def digitVal_digitChar)
  next
    case False
    then have "parseInt (showNat (n div 10)) = n div 10" using 1 by simp
    then show ?thesis using False
      by (subst showNat.simps) (simp add: parseInt_snoc digitVal_digitChar)
  qed
qed

lemma placeholder_eq: "placeholder i = ''___CODE_BLOCK_'' @ showNat i @ ''___''"
  by (simp add: placeholder_def)

lemma isDigit_chars: "isDigit c \<Longrightarrow> c \<noteq> BT \<and> c \<noteq> CHR ''_''"
  by (auto simp: isDigit_def)

lemma BT_notin_placeholder: "BT \<notin> set (placeholder i)"
  using showNat_digits[of i] isDigit_chars by (auto simp: placeholder_eq)

text \<open>the placeholder is found at the head of a text\<close>

lemma matchAt_placeholder:
  "\<exists>st. matchAt placeholderRe b (placeholder i @ z) = Some st \<and> rest st = z \<and>
        map_of (caps st) 1 = Some (showNat i)"
proof -
  let ?p = "''___CODE_BLOCK_''"
  define K2 where "K2 = m (lit ''___'') Some"
  define K1 where "K1 = m (Grp 1 (Plus Digit)) K2"
  have eq: "m placeholderRe Some = m (lit ?p) K1"
    unfolding placeholderRe_def K1_def K2_def Seqs_def
    by (simp add: m_Seq_fun m_Eps_fun)
  have k2: "K2 \<lparr>behind = bb, rest = ''___'' @ z, caps = c\<rparr>
              = Some \<lparr>behind = rev ''___'' @ bb, rest = z, caps = c\<rparr>" for bb c
    unfolding K2_def using advs_record[of "''___''" bb z c]
    by (simp add: m_lit startsWith_append del: advs.simps rev.simps)
  have nd: "\<not> isDigit (hd (''___'' @ z))" by (simp add: isDigit_def)
  have k1: "K1 \<lparr>behind = bb, rest = showNat i @ ''___'' @ z, caps = []\<rparr>
              = Some \<lparr>behind = rev ''___'' @ rev (showNat i) @ bb, rest = z, caps = [(1, showNat i)]\<rparr>" for bb
    unfolding K1_def Digit_def
  proof (rule m_Grp_Plus_cls)
    show "showNat i \<noteq> []" by (rule showNat_nonempty)
    show "\<forall>c\<in>set (showNat i). isDigit c" by (rule showNat_digits)
    show "''___'' @ z = [] \<or> \<not> isDigit (hd (''___'' @ z))" using nd by simp
    show "K2 \<lparr>behind = rev (showNat i) @ bb, rest = ''___'' @ z, caps = [(1, showNat i)]\<rparr>
            = Some \<lparr>behind = rev ''___'' @ rev (showNat i) @ bb, rest = z, caps = [(1, showNat i)]\<rparr>"
      by (rule k2)
  qed
  have a: "advs (length ?p) \<lparr>behind = b, rest = ?p @ showNat i @ ''___'' @ z, caps = []\<rparr>
            = \<lparr>behind = rev ?p @ b, rest = showNat i @ ''___'' @ z, caps = []\<rparr>"
    by (rule advs_record)
  have "matchAt placeholderRe b (placeholder i @ z)
          = Some \<lparr>behind = rev ''___'' @ rev (showNat i) @ rev ?p @ b, rest = z, caps = [(1, showNat i)]\<rparr>"
    unfolding matchAt_def eq placeholder_eq
    using a k1[of "rev ?p @ b"] by (simp add: m_lit startsWith_append del: advs.simps rev.simps)
  then show ?thesis by simp
qed


lemma m_lit_Some:
  assumes "m (lit p) k s = Some st"
  shows "\<exists>s1. rest s = p @ rest s1 \<and> k s1 = Some st"
proof -
  from assms have sw: "startsWith (rest s) p" and 2: "k (advs (length p) s) = Some st"
    by (auto simp: m_lit split: if_splits)
  from sw have "rest s = p @ drop (length p) (rest s)"
    by (metis startsWith_iff append_take_drop_id)
  then have "rest s = p @ rest (advs (length p) s)" by (simp add: advs_rest)
  with 2 show ?thesis by blast
qed

lemma m_Cls_Some:
  "m (Cls q) k s = Some st \<Longrightarrow> \<exists>x xs. rest s = x # xs \<and> q x \<and> k (adv s) = Some st"
  by (auto simp: m.simps(3) split: list.splits if_splits)

lemma m_Grp_Plus_Cls_Some:
  "m (Grp g (Plus (Cls q))) k s = Some st \<Longrightarrow> \<exists>x xs. rest s = x # xs \<and> q x"
  by (auto simp: m.simps(8) m.simps(4) Plus_def dest!: m_Cls_Some)

lemma matchAt_placeholder_shape:
  assumes "matchAt placeholderRe b t = Some st"
  shows "\<exists>dg y. isDigit dg \<and> t = ''___CODE_BLOCK_'' @ dg # y"
proof -
  define p where "p = ''___CODE_BLOCK_''"
  define K2 where "K2 = m (lit ''___'') Some"
  define s0 where "s0 = \<lparr>behind = b, rest = t, caps = []\<rparr>"
  have eq: "m placeholderRe Some = m (lit p) (m (Grp 1 (Plus (Cls isDigit))) K2)"
    unfolding placeholderRe_def K2_def Seqs_def p_def Digit_def by (simp add: m_Seq_fun m_Eps_fun)
  from assms have 1: "m (lit p) (m (Grp 1 (Plus (Cls isDigit))) K2) s0 = Some st"
    by (simp add: matchAt_def eq s0_def)
  from m_lit_Some[OF 1] obtain s1 where
    s1: "rest s0 = p @ rest s1" "m (Grp 1 (Plus (Cls isDigit))) K2 s1 = Some st" by blast
  from m_Grp_Plus_Cls_Some[OF s1(2)] obtain x xs where "rest s1 = x # xs" "isDigit x" by blast
  with s1(1) have "t = p @ x # xs" by (simp add: s0_def)
  with \<open>isDigit x\<close> show ?thesis unfolding p_def by blast
qed

lemma startsWith_of_append:
  assumes "length p \<le> length run" "run @ z = p @ y"
  shows "startsWith run p"
proof -
  from assms(2) have "take (length p) (run @ z) = p" by simp
  with assms(1) have "take (length p) run = p" by simp
  then show ?thesis by (simp add: startsWith_iff)
qed

lemma drop_of_append:
  assumes "run @ z = p @ y" "length run < length p"
  shows "z = drop (length run) p @ y"
proof -
  from assms(1) have "drop (length run) (run @ z) = drop (length run) (p @ y)" by simp
  with assms(2) show ?thesis by simp
qed

lemma border:
  assumes run: "run \<noteq> []" "\<not> startsWith run ''___CODE_BLOCK_''"
    and z: "z = [] \<or> (\<exists>j z'. z = placeholder j @ z')"
  shows "matchAt placeholderRe b (run @ z) = None"
proof (rule ccontr)
  let ?p = "''___CODE_BLOCK_''"
  assume "matchAt placeholderRe b (run @ z) \<noteq> None"
  then obtain st where "matchAt placeholderRe b (run @ z) = Some st" by auto
  from matchAt_placeholder_shape[OF this] obtain dg y where
    dg: "isDigit dg" and e: "run @ z = ?p @ dg # y" by blast
  define k where "k = length run"
  have k1: "k \<ge> 1" using run(1) by (cases run) (simp_all add: k_def)
  show False
  proof (cases "k \<ge> 14")
    case True
    then have "length ?p \<le> length run" by (simp add: k_def)
    from startsWith_of_append[OF this e] run(2) show False by simp
  next
    case False
    then have "length run < length ?p" by (simp add: k_def)
    from drop_of_append[OF e this] have zz: "z = drop k ?p @ dg # y" by (simp only: k_def)
    from z show False
    proof
      assume "z = []"
      with zz show False by simp
    next
      assume "\<exists>j z'. z = placeholder j @ z'"
      then obtain j z' where "z = ?p @ showNat j @ ''___'' @ z'" by (auto simp: placeholder_eq)
      with zz have c: "?p @ showNat j @ ''___'' @ z' = drop k ?p @ dg # y" by simp
      from k1 False have "k = 1 \<or> k = 2 \<or> k = 3 \<or> k = 4 \<or> k = 5 \<or> k = 6 \<or> k = 7
        \<or> k = 8 \<or> k = 9 \<or> k = 10 \<or> k = 11 \<or> k = 12 \<or> k = 13" by arith
      then show False using c dg
        by (elim disjE) (auto simp: isDigit_def)
    qed
  qed
qed

lemma render_split: "render ts = litPrefix ts @ render (afterRun ts)"
  by (induction ts rule: litPrefix.induct) simp_all

lemma afterRun_shape:
  "render (afterRun ts) = [] \<or> (\<exists>j z'. render (afterRun ts) = placeholder j @ z')"
  by (induction ts rule: afterRun.induct) auto

lemma literal_no_placeholder:
  assumes "cleanT (TChar c # ts)"
  shows "matchAt placeholderRe b (c # render ts) = None"
proof -
  have "render (TChar c # ts) = litPrefix (TChar c # ts) @ render (afterRun (TChar c # ts))"
    by (rule render_split)
  moreover have "render (afterRun (TChar c # ts)) = [] \<or> (\<exists>j z'. render (afterRun (TChar c # ts)) = placeholder j @ z')"
    by (rule afterRun_shape)
  moreover have "litPrefix (TChar c # ts) \<noteq> []" by simp
  moreover have "\<not> startsWith (litPrefix (TChar c # ts)) ''___CODE_BLOCK_''" using assms by simp
  ultimately have "matchAt placeholderRe b (render (TChar c # ts)) = None"
    using border[of "litPrefix (TChar c # ts)" "render (afterRun (TChar c # ts))" b] by simp
  then show ?thesis by simp
qed

lemma restore_render_replG:
  assumes "cleanT toks"
  shows "replG placeholderRe (stateless (\<lambda>x. codeBlockAt cbs (parseInt (group x 1)))) () b (render toks)
           = (orig cbs toks, ())"
proof -
  define f where "f = stateless (\<lambda>x. codeBlockAt cbs (parseInt (group x 1)))"
  have "replG placeholderRe f () b (render toks) = (orig cbs toks, ())"
    using assms
  proof (induction toks arbitrary: b)
    case Nil
    have "matchAt placeholderRe b [] = None"
      using matchAt_placeholder_shape[of b "[]"] by (cases "matchAt placeholderRe b []") auto
    then show ?case by (simp add: replG_Nil_None)
  next
    case (Cons t ts)
    from Cons.prems have cl: "cleanT ts" by simp
    show ?case
    proof (cases t)
      case (TChar c)
      have "matchAt placeholderRe b (c # render ts) = None"
        using literal_no_placeholder Cons.prems TChar by blast
      then show ?thesis using Cons.IH[OF cl, of "c # b"] TChar by (simp add: replG_Cons_None)
    next
      case (THole i)
      let ?s = "placeholder i @ render ts"
      from matchAt_placeholder[of b i "render ts"] obtain st where
        st: "matchAt placeholderRe b ?s = Some st" "rest st = render ts"
            "map_of (caps st) 1 = Some (showNat i)" by blast
      have ne: "placeholder i \<noteq> []" by (simp add: placeholder_eq)
      have lt: "length (rest st) < length ?s" using st(2) ne by simp
      have dr: "drop (length ?s - length (rest st)) ?s = render ts" using st(2) by simp
      have tk: "take (length ?s - length (rest st)) ?s = placeholder i" using st(2) by simp
      have g: "group (mkRes b ?s st) 1 = showNat i" using st(3) by (simp add: group_def mkRes_def)
      have fx: "f () (mkRes b ?s st) = (codeBlockAt cbs i, ())"
        unfolding f_def stateless_def by (simp only: g parseInt_showNat)
      from replG_Some[OF st(1) lt, of f "()"]
      have "replG placeholderRe f () b ?s =
              (codeBlockAt cbs i @ fst (replG placeholderRe f () (rev (placeholder i) @ b) (render ts)),
               snd (replG placeholderRe f () (rev (placeholder i) @ b) (render ts)))"
        by (simp only: fx dr tk fst_conv snd_conv)
      then show ?thesis using Cons.IH[OF cl, of "rev (placeholder i) @ b"] THole by simp
    qed
  qed
  then show ?thesis unfolding f_def .
qed

lemma restore_render: "cleanT toks \<Longrightarrow> restore cbs (render toks) = orig cbs toks"
  unfolding restore_def jsReplace_def by (simp only: restore_render_replG fst_conv)

lemma ext_rest_le: "ext G s s' \<Longrightarrow> length (rest s') \<le> length (rest s)"
  by (auto simp: ext_def)

lemma ext_caps_other:
  assumes "ext G s s'" "g \<notin> G"
  shows "map_of (caps s') g = map_of (caps s) g"
proof -
  from assms(1) obtain ns where ns: "caps s' = ns @ caps s" "\<forall>(g, v)\<in>set ns. g \<in> G"
    by (auto simp: ext_def)
  from ns(2) assms(2) have "g \<notin> fst ` set ns" by auto
  then have "map_of ns g = None" by (simp add: map_of_eq_None_iff)
  with ns(1) show ?thesis by (simp add: map_add_def)
qed

lemma m_rest_le:
  assumes "m r k s = Some st" "\<And>s' st'. k s' = Some st' \<Longrightarrow> length (rest st') \<le> length (rest s')"
  shows "length (rest st) \<le> length (rest s)"
proof -
  from m_inv[OF assms(1)] obtain s' where "ext (grps r) s s'" "k s' = Some st" by blast
  with assms(2)[of s' st] ext_rest_le[of "grps r" s s'] show ?thesis by simp
qed

lemma m_Chr_Some:
  "m (Chr c) k s = Some st \<Longrightarrow> \<exists>xs. rest s = c # xs \<and> k (adv s) = Some st"
  by (auto simp: m.simps(2) split: list.splits if_splits)

lemma rest_adv: "rest (adv s) = tl (rest s)"
  by (simp add: adv_def)

lemma caps_adv: "caps (adv s) = caps s"
  by (simp add: adv_def)

lemma repG_Chr_inv:
  "repG n (m (Chr c)) k s = Some st \<Longrightarrow>
   \<exists>j\<le>length (rest s). set (take j (rest s)) \<subseteq> {c} \<and> k (advs j s) = Some st"
proof (induction n arbitrary: s)
  case 0
  then show ?case by (intro exI[of _ 0]) (simp add: repG.simps)
next
  case (Suc n)
  let ?k = "\<lambda>s'. if length (rest s') < length (rest s) then repG n (m (Chr c)) k s' else None"
  show ?case
  proof (cases "m (Chr c) ?k s")
    case None
    with Suc.prems have "k s = Some st" by (simp add: repG.simps)
    then show ?thesis by (intro exI[of _ 0]) simp
  next
    case (Some r)
    with Suc.prems have r: "m (Chr c) ?k s = Some st" by (simp add: repG.simps)
    from m_Chr_Some[OF r] obtain xs where xs: "rest s = c # xs" "?k (adv s) = Some st" by blast
    then have "repG n (m (Chr c)) k (adv s) = Some st" by (simp split: if_splits)
    from Suc.IH[OF this] obtain j where j: "j \<le> length (rest (adv s))"
      "set (take j (rest (adv s))) \<subseteq> {c}" "k (advs j (adv s)) = Some st" by blast
    show ?thesis using j xs(1) by (intro exI[of _ "Suc j"]) (simp add: rest_adv)
  qed
qed


lemma m_Ref_Some:
  assumes "m (Ref n) k s = Some st" "map_of (caps s) n = Some v"
  shows "\<exists>s1. rest s = v @ rest s1 \<and> k s1 = Some st"
proof -
  from assms have sw: "startsWith (rest s) v" and 2: "k (advs (length v) s) = Some st"
    by (auto simp: m.simps(9) split: if_splits)
  from sw have "rest s = v @ drop (length v) (rest s)"
    by (metis startsWith_iff append_take_drop_id)
  then have "rest s = v @ rest (advs (length v) s)" by (simp add: advs_rest)
  with 2 show ?thesis by blast
qed

lemma inline_match:
  assumes "matchAt inlineCodeRe b s = Some st"
  shows "\<exists>w. s = w @ rest st \<and> w \<noteq> [] \<and> last w = BT \<and> hd w = BT"
proof -
  define X where "X = Grp 2 (LazyPlus (NoneOf [BT, NL]))"
  define K where "K = m X (m (Ref 1) Some)"
  define s0 where "s0 = \<lparr>behind = b, rest = s, caps = []\<rparr>"
  define K' where "K' = (\<lambda>s'. K (s'\<lparr>caps := (1, take (length (rest s0) - length (rest s')) (rest s0)) # caps s'\<rparr>))"
  have eq: "m inlineCodeRe Some = m (Grp 1 (Plus (Chr BT))) K"
    unfolding inlineCodeRe_def K_def X_def Seqs_def by (simp add: m_Seq_fun m_Eps_fun)
  from assms have "m (Grp 1 (Plus (Chr BT))) K s0 = Some st"
    by (simp add: matchAt_def eq s0_def)
  then have 1: "m (Chr BT) (m (Star (Chr BT)) K') s0 = Some st"
    by (simp add: m.simps(8) Plus_def m_Seq_fun K'_def)
  from m_Chr_Some[OF 1] obtain xs where xs: "rest s0 = BT # xs"
    and 2: "m (Star (Chr BT)) K' (adv s0) = Some st" by blast
  from 2 have "repG (length (rest (adv s0))) (m (Chr BT)) K' (adv s0) = Some st"
    by (simp add: m.simps(6))
  from repG_Chr_inv[OF this] obtain j where j: "j \<le> length (rest (adv s0))"
    "set (take j (rest (adv s0))) \<subseteq> {BT}" "K' (advs j (adv s0)) = Some st" by blast
  define s1 where "s1 = advs j (adv s0)"
  define g1 where "g1 = BT # take j xs"
  have r1: "rest s1 = drop j xs" by (simp add: s1_def advs_rest rest_adv xs)
  have jl: "j \<le> length xs" using j(1) by (simp add: rest_adv xs)
  have tk: "take (length (rest s0) - length (rest s1)) (rest s0) = g1"
    using jl by (simp add: r1 xs g1_def Suc_diff_le)
  define s1' where "s1' = s1\<lparr>caps := (1, g1) # caps s1\<rparr>"
  have 3: "K s1' = Some st" using j(3) by (simp add: K'_def s1_def[symmetric] tk s1'_def)
  have g1: "g1 \<noteq> []" "set g1 \<subseteq> {BT}" using j(2) by (simp_all add: g1_def rest_adv xs)
  from 3 have "m X (m (Ref 1) Some) s1' = Some st" by (simp add: K_def)
  from m_inv[OF this] obtain s2 where s2: "ext (grps X) s1' s2" "m (Ref 1) Some s2 = Some st" by blast
  have "1 \<notin> grps X" by (simp add: X_def LazyPlus_def NoneOf_def)
  from ext_caps_other[OF s2(1) this] have c: "map_of (caps s2) 1 = Some g1" by (simp add: s1'_def)
  from m_Ref_Some[OF s2(2) c] have r2: "rest s2 = g1 @ rest st" by auto
  from s2(1) obtain w2 where w2: "rest s1' = w2 @ rest s2" by (auto simp: ext_def)
  have "rest s0 = g1 @ rest s1" using jl by (simp add: xs g1_def r1)
  then have "s = (g1 @ w2 @ g1) @ rest st" using w2 r2 by (simp add: s0_def s1'_def)
  moreover have "last (g1 @ w2 @ g1) = BT" using g1 by (metis last_appendR last_in_set append_is_Nil_conv singletonD subsetD)
  moreover have "hd (g1 @ w2 @ g1) = BT" by (simp add: g1_def)
  moreover have "g1 @ w2 @ g1 \<noteq> []" using g1 by simp
  ultimately show ?thesis by blast
qed

lemma fence_match:
  assumes "matchAt fenceRe b s = Some st"
  shows "\<exists>g1 w. s = g1 @ w @ rest st \<and> w \<noteq> [] \<and> group (mkRes b s st) 1 = g1"
proof -
  define R where "R = Seq (Grp 2 (AtLeast 3 (Chr BT))) (Seq (Grp 3 (Lazy Any)) (Seq (Ref 2) Eps))"
  define K where "K = m R Some"
  define s0 where "s0 = \<lparr>behind = b, rest = s, caps = []\<rparr>"
  define K' where "K' = (\<lambda>s'. K (s'\<lparr>caps := (1, take (length (rest s0) - length (rest s')) (rest s0)) # caps s'\<rparr>))"
  have eq: "m fenceRe Some = m (Grp 1 (Alt Bol (Chr NL))) K"
    unfolding fenceRe_def K_def R_def Seqs_def by (simp add: m_Seq_fun)
  from assms have "m (Grp 1 (Alt Bol (Chr NL))) K s0 = Some st"
    by (simp add: matchAt_def eq s0_def)
  then have 1: "m (Alt Bol (Chr NL)) K' s0 = Some st"
    by (simp add: m.simps(8) K'_def)
  have "\<exists>s1 g1. rest s0 = g1 @ rest s1 \<and> caps s1 = [(1, g1)] \<and> K s1 = Some st"
  proof (cases "m Bol K' s0")
    case (Some r)
    with 1 have "K' s0 = Some st" by (auto simp: m.simps(5) m.simps(10) split: if_splits)
    then have "K (s0\<lparr>caps := [(1, [])]\<rparr>) = Some st" by (simp add: K'_def s0_def)
    then show ?thesis by (intro exI[of _ "s0\<lparr>caps := [(1, [])]\<rparr>"] exI[of _ "[]"]) simp
  next
    case None
    with 1 have "m (Chr NL) K' s0 = Some st" by (simp add: m.simps(5))
    from m_Chr_Some[OF this] obtain xs where xs: "rest s0 = NL # xs" "K' (adv s0) = Some st" by blast
    then have "K ((adv s0)\<lparr>caps := [(1, [NL])]\<rparr>) = Some st"
      by (simp add: K'_def rest_adv caps_adv) (simp add: s0_def)
    then show ?thesis using xs(1)
      by (intro exI[of _ "(adv s0)\<lparr>caps := [(1, [NL])]\<rparr>"] exI[of _ "[NL]"]) (simp add: rest_adv)
  qed
  then obtain s1 g1 where s1: "rest s0 = g1 @ rest s1" "caps s1 = [(1, g1)]" "K s1 = Some st" by blast
  from s1(3) have ks: "m R Some s1 = Some st" by (simp add: K_def)
  from m_inv[OF ks] have e: "ext (grps R) s1 st" by auto
  have "1 \<notin> grps R" by (simp add: R_def AtLeast_def Times3 Any_def)
  from ext_caps_other[OF e this] have c: "map_of (caps st) 1 = Some g1" by (simp add: s1(2))
  from e obtain w where w: "rest s1 = w @ rest st" by (auto simp: ext_def)
  define K3 where "K3 = m (Seq (Grp 3 (Lazy Any)) (Seq (Ref 2) Eps)) Some"
  define K3' where "K3' = (\<lambda>s'. K3 (s'\<lparr>caps := (2, take (length (rest s1) - length (rest s')) (rest s1)) # caps s'\<rparr>))"
  define kk where "kk = m (Seq (Chr BT) (Seq (Chr BT) Eps)) (m (Star (Chr BT)) K3')"
  from ks have "m (Chr BT) kk s1 = Some st"
    by (simp add: R_def m_Seq_fun m.simps(8) AtLeast_def Times3 K3_def K3'_def kk_def)
  from m_Chr_Some[OF this] obtain ys where ys: "rest s1 = BT # ys" "kk (adv s1) = Some st" by blast
  have p3: "length (rest st') \<le> length (rest s')" if "K3' s' = Some st'" for s' st'
  proof -
    from that have "K3 (s'\<lparr>caps := (2, take (length (rest s1) - length (rest s')) (rest s1)) # caps s'\<rparr>) = Some st'"
      by (simp add: K3'_def)
    from m_rest_le[OF this[unfolded K3_def]] show ?thesis by simp
  qed
  have p2: "length (rest st') \<le> length (rest s')" if "m (Star (Chr BT)) K3' s' = Some st'" for s' st'
    using m_rest_le[OF that p3] by simp
  from ys(2) have "length (rest st) \<le> length (rest (adv s1))"
    unfolding kk_def using m_rest_le[OF _ p2] by blast
  then have "length (rest st) < length (rest s1)" by (simp add: rest_adv ys(1))
  with w have "w \<noteq> []" by auto
  moreover have "s = g1 @ w @ rest st" using s1(1) w by (simp add: s0_def)
  moreover have "group (mkRes b s st) 1 = g1" using c by (simp add: group_def mkRes_def)
  ultimately show ?thesis by blast
qed

lemma render_append: "render (A @ B) = render A @ render B"
  by (induction A rule: render.induct) simp_all

lemma orig_append: "orig X (A @ B) = orig X A @ orig X B"
  by (induction X A rule: orig.induct) simp_all

lemma render_chars: "render (map TChar g) = g"
  by (induction g) simp_all

lemma orig_chars: "orig X (map TChar g) = g"
  by (induction g) simp_all

lemma litPrefix_chars: "litPrefix (map TChar g @ THole k # ts) = g"
  by (induction g) simp_all

lemma not_includes_suffix: "\<not> strIncludes (x @ y) p \<Longrightarrow> \<not> strIncludes y p"
  by (auto simp: strIncludes_iff) (metis append.assoc)

lemma includes_prefix:
  assumes "strIncludes x p"
  shows "strIncludes (x @ y) p"
proof -
  from assms obtain a c where "x = a @ p @ c" by (auto simp: strIncludes_iff)
  then have "x @ y = a @ p @ (c @ y)" by simp
  then show ?thesis unfolding strIncludes_iff by blast
qed

lemma not_includes_prefix: "\<not> strIncludes (x @ y) p \<Longrightarrow> \<not> strIncludes x p"
  using includes_prefix by blast

lemma startsWith_includes: "startsWith s p \<Longrightarrow> strIncludes s p"
  by (cases s; cases p) simp_all

lemma startsWith_extend: "startsWith x p \<Longrightarrow> startsWith (x @ y) p"
  by (induction x p rule: startsWith.induct) simp_all

lemma cleanT_chars:
  "\<not> strIncludes g ''___CODE_BLOCK_'' \<Longrightarrow> cleanT ts \<Longrightarrow> cleanT (map TChar g @ THole k # ts)"
proof (induction g)
  case Nil
  then show ?case by simp
next
  case (Cons c g)
  from Cons.prems(1) have 1: "\<not> startsWith (c # g) ''___CODE_BLOCK_''" and 2: "\<not> strIncludes g ''___CODE_BLOCK_''"
    using startsWith_includes not_includes_suffix[of "[c]" g] by auto
  have "litPrefix (map TChar (c # g) @ THole k # ts) = c # g" by (rule litPrefix_chars)
  then have "litPrefix (TChar c # map TChar g @ THole k # ts) = c # g" by simp
  with 1 Cons.IH[OF 2 Cons.prems(2)] show ?case by (simp only: cleanT.simps list.map append_Cons) simp
qed

lemma codeBlockAt_new: "codeBlockAt (cbs @ w # others) (length cbs) = w"
  by (simp add: codeBlockAt_def)

lemma protectFenced_tokens:
  assumes "\<not> strIncludes s ''___CODE_BLOCK_''"
  shows "\<exists>toks new.
    replG fenceRe
       (\<lambda>codeBlocks x.
          (let prefix = group x 1;
               codeBlock = drop (length prefix) (whole x)
           in (prefix @ placeholder (length (codeBlocks @ [codeBlock]) - 1), codeBlocks @ [codeBlock])))
       cbs b s = (render toks, cbs @ new) \<and>
    (\<forall>others. orig (cbs @ new @ others) toks = s) \<and> cleanT toks \<and> (\<exists>y. s = litPrefix toks @ y)"
proof -
  define f where "f = (\<lambda>codeBlocks x.
          (let prefix = group x 1;
               codeBlock = drop (length prefix) (whole x)
           in (prefix @ placeholder (length (codeBlocks @ [codeBlock]) - 1), codeBlocks @ [codeBlock])))"
  have "\<exists>toks new. replG fenceRe f cbs b s = (render toks, cbs @ new) \<and>
    (\<forall>others. orig (cbs @ new @ others) toks = s) \<and> cleanT toks \<and> (\<exists>y. s = litPrefix toks @ y)"
    using assms
  proof (induction "length s" arbitrary: s cbs b rule: less_induct)
    case less
    show ?case
    proof (cases "matchAt fenceRe b s")
      case None
      show ?thesis
      proof (cases s)
        case Nil
        with None have "replG fenceRe f cbs b s = (render [], cbs @ [])" by (simp add: replG_Nil_None)
        then show ?thesis using Nil by (intro exI[of _ "[]"]) simp
      next
        case (Cons c cs)
        from less.prems Cons have nc: "\<not> strIncludes cs ''___CODE_BLOCK_''"
          and ns: "\<not> startsWith (c # cs) ''___CODE_BLOCK_''" by auto
        from less.hyps[of cs, OF _ nc, of cbs "c # b"] Cons obtain toks new where
          ih: "replG fenceRe f cbs (c # b) cs = (render toks, cbs @ new)"
              "\<forall>others. orig (cbs @ new @ others) toks = cs" "cleanT toks" "\<exists>y. cs = litPrefix toks @ y"
          by auto
        from ih(4) obtain y where y: "cs = litPrefix toks @ y" by blast
        have "\<not> startsWith (c # litPrefix toks) ''___CODE_BLOCK_''"
          using ns startsWith_extend[of "c # litPrefix toks" "''___CODE_BLOCK_''" y] y by auto
        then have cl: "cleanT (TChar c # toks)" using ih(3) by simp
        have "replG fenceRe f cbs b s = (render (TChar c # toks), cbs @ new)"
          using None Cons ih(1) by (simp add: replG_Cons_None)
        moreover have "\<forall>others. orig (cbs @ new @ others) (TChar c # toks) = s" using ih(2) Cons by simp
        moreover have "\<exists>y. s = litPrefix (TChar c # toks) @ y" using y Cons by simp
        ultimately show ?thesis using cl by blast
      qed
    next
      case (Some st)
      from fence_match[OF Some] obtain g1 w where
        gw: "s = g1 @ w @ rest st" "w \<noteq> []" "group (mkRes b s st) 1 = g1" by blast
      have lt: "length (rest st) < length s" using gw(1,2) by (metis length_append length_greater_0_conv less_add_same_cancel2 trans_less_add2)
      have n: "length s - length (rest st) = length (g1 @ w)" using gw(1) by (metis add_diff_cancel_right' append.assoc length_append)
      have dr: "drop (length s - length (rest st)) s = rest st" unfolding n using gw(1) by (metis append.assoc append_eq_conv_conj)
      have tk: "take (length s - length (rest st)) s = g1 @ w" unfolding n using gw(1) by (metis append.assoc append_eq_conv_conj)
      have wh: "whole (mkRes b s st) = g1 @ w" using tk by (simp add: mkRes_def)
      have g1: "group (mkRes b s st) (Suc 0) = g1" using gw(3) by simp
      have fx: "f cbs (mkRes b s st) = (g1 @ placeholder (length cbs), cbs @ [w])"
        by (simp add: f_def g1 wh Let_def)
      have nr: "\<not> strIncludes (rest st) ''___CODE_BLOCK_''"
        using less.prems gw(1) not_includes_suffix[of "g1 @ w" "rest st"] by simp
      have ng: "\<not> strIncludes g1 ''___CODE_BLOCK_''"
        using less.prems gw(1) not_includes_prefix[of g1 "w @ rest st"] by simp
      from less.hyps[OF lt nr, of "cbs @ [w]" "rev (g1 @ w) @ b"] obtain toks new where
        ih: "replG fenceRe f (cbs @ [w]) (rev (g1 @ w) @ b) (rest st) = (render toks, (cbs @ [w]) @ new)"
            "\<forall>others. orig ((cbs @ [w]) @ new @ others) toks = rest st" "cleanT toks"
        by blast
      let ?toks = "map TChar g1 @ THole (length cbs) # toks"
      from replG_Some[OF Some lt, of f cbs]
      have "replG fenceRe f cbs b s = (render ?toks, cbs @ (w # new))"
        by (simp only: fx dr tk fst_conv snd_conv ih(1)) (simp add: render_append render_chars)
      moreover have "\<forall>others. orig (cbs @ (w # new) @ others) ?toks = s"
        using ih(2) gw(1) by (simp add: orig_append orig_chars codeBlockAt_new)
      moreover have "cleanT ?toks" by (rule cleanT_chars[OF ng ih(3)])
      moreover have "\<exists>y. s = litPrefix ?toks @ y" using gw(1) by (simp only: litPrefix_chars) blast
      ultimately show ?thesis by blast
    qed
  qed
  then show ?thesis unfolding f_def .
qed

lemma inline_needs_backtick:
  assumes "s = [] \<or> hd s \<noteq> BT"
  shows "matchAt inlineCodeRe b s = None"
proof (cases "matchAt inlineCodeRe b s")
  case None
  then show ?thesis .
next
  case (Some st)
  from inline_match[OF Some] obtain w where "s = w @ rest st" "w \<noteq> []" "hd w = BT" by blast
  then have "s \<noteq> [] \<and> hd s = BT" by (cases w) auto
  with assms show ?thesis by simp
qed

lemma inline_skip:
  "BT \<notin> set p \<Longrightarrow>
   replG inlineCodeRe f u b (p @ z) =
     (p @ fst (replG inlineCodeRe f u (rev p @ b) z), snd (replG inlineCodeRe f u (rev p @ b) z))"
proof (induction p arbitrary: b)
  case Nil
  then show ?case by simp
next
  case (Cons c p)
  then have "matchAt inlineCodeRe b (c # p @ z) = None" by (intro inline_needs_backtick) auto
  then show ?case using Cons.IH[of "c # b"] Cons.prems by (simp add: replG_Cons_None)
qed

lemma token_boundary:
  "render toks = w @ z \<Longrightarrow> w \<noteq> [] \<Longrightarrow> last w = BT \<Longrightarrow>
   \<exists>n. w = render (take n toks) \<and> z = render (drop n toks) \<and> 0 < n \<and> n \<le> length toks"
proof (induction toks arbitrary: w rule: render.induct)
  case 1
  then show ?case by simp
next
  case (2 c ts)
  from 2(2,3) obtain w' where w: "w = c # w'" "render ts = w' @ z" by (cases w) auto
  show ?case
  proof (cases "w' = []")
    case True
    with w show ?thesis by (intro exI[of _ 1]) simp
  next
    case False
    with 2(4) w have "last w' = BT" by simp
    from 2(1)[OF w(2) False this] obtain n where
      "w' = render (take n ts)" "z = render (drop n ts)" "0 < n" "n \<le> length ts" by blast
    with w show ?thesis by (intro exI[of _ "Suc n"]) simp
  qed
next
  case (3 i ts)
  from 3(2) have "placeholder i @ render ts = w @ z" by simp
  then obtain u where "(placeholder i = w @ u \<and> u @ render ts = z) \<or> (placeholder i @ u = w \<and> render ts = u @ z)"
    by (auto simp: append_eq_append_conv2)
  then show ?case
  proof
    assume "placeholder i = w @ u \<and> u @ render ts = z"
    then have "set w \<subseteq> set (placeholder i)" by (metis set_append Un_upper1)
    with 3(3,4) have "BT \<in> set (placeholder i)" using last_in_set by fastforce
    then show ?thesis by (simp add: BT_notin_placeholder)
  next
    assume a: "placeholder i @ u = w \<and> render ts = u @ z"
    show ?thesis
    proof (cases "u = []")
      case True
      with a 3(3,4) have "BT \<in> set (placeholder i)" using last_in_set by fastforce
      then show ?thesis by (simp add: BT_notin_placeholder)
    next
      case False
      with a 3(4) have "last u = BT" by auto
      from 3(1)[OF _ False this] a obtain n where
        "u = render (take n ts)" "z = render (drop n ts)" "0 < n" "n \<le> length ts" by blast
      with a show ?thesis by (intro exI[of _ "Suc n"]) auto
    qed
  qed
qed

lemma orig_literal:
  "\<not> strIncludes (render A) ''___CODE_BLOCK_'' \<Longrightarrow> orig X A = render A"
proof (induction A rule: render.induct)
  case 1
  then show ?case by simp
next
  case (2 c ts)
  from 2(2) have "\<not> strIncludes (render ts) ''___CODE_BLOCK_''"
    using not_includes_suffix[of "[c]" "render ts"] by simp
  with 2(1) show ?case by simp
next
  case (3 i ts)
  have "strIncludes (placeholder i @ render ts) ''___CODE_BLOCK_''"
    unfolding strIncludes_iff placeholder_eq
    by (rule exI[of _ "[]"], rule exI[of _ "showNat i @ ''___'' @ render ts"]) simp
  moreover have e: "render (THole i # ts) = placeholder i @ render ts" by simp
  ultimately have False using 3(2) by metis
  then show ?case ..
qed

lemma litPrefix_append_mono:
  "litPrefix B = litPrefix B' @ y \<Longrightarrow> \<exists>y'. litPrefix (A @ B) = litPrefix (A @ B') @ y'"
  by (induction A rule: litPrefix.induct) simp_all

lemma cleanT_append_mono:
  "cleanT (A @ B) \<Longrightarrow> cleanT B' \<Longrightarrow> litPrefix B = litPrefix B' @ y \<Longrightarrow> cleanT (A @ B')"
proof (induction A)
  case Nil
  then show ?case by simp
next
  case (Cons t A)
  from litPrefix_append_mono[OF Cons.prems(3), of "t # A"] obtain y' where
    y': "litPrefix (t # A @ B) = litPrefix (t # A @ B') @ y'" by auto
  from Cons.prems(1) have "\<not> startsWith (litPrefix (t # A @ B)) ''___CODE_BLOCK_''" by simp
  with y' have "\<not> startsWith (litPrefix (t # A @ B')) ''___CODE_BLOCK_''"
    using startsWith_extend by metis
  moreover have "cleanT (A @ B')" using Cons by simp
  ultimately show ?case by simp
qed

lemma cleanT_drop: "cleanT (A @ B) \<Longrightarrow> cleanT B"
  by (induction A) simp_all

lemma protectInline_tokens:
  assumes "cleanT toks"
  shows "\<exists>toks2 new.
    replG inlineCodeRe
       (\<lambda>codeBlocks x.
          if strIncludes (whole x) ''___CODE_BLOCK_'' then (whole x, codeBlocks)
          else (placeholder (length (codeBlocks @ [whole x]) - 1), codeBlocks @ [whole x]))
       cbs b (render toks) = (render toks2, cbs @ new) \<and>
    (\<forall>others. orig (cbs @ new @ others) toks2 = orig (cbs @ new @ others) toks) \<and>
    cleanT toks2 \<and> (\<exists>y. litPrefix toks = litPrefix toks2 @ y)"
proof -
  define f :: "string list \<Rightarrow> mres \<Rightarrow> string \<times> string list" where "f = (\<lambda>codeBlocks x.
          if strIncludes (whole x) ''___CODE_BLOCK_'' then (whole x, codeBlocks)
          else (placeholder (length (codeBlocks @ [whole x]) - 1), codeBlocks @ [whole x]))"
  have "\<exists>toks2 new. replG inlineCodeRe f cbs b (render toks) = (render toks2, cbs @ new) \<and>
    (\<forall>others. orig (cbs @ new @ others) toks2 = orig (cbs @ new @ others) toks) \<and>
    cleanT toks2 \<and> (\<exists>y. litPrefix toks = litPrefix toks2 @ y)"
    using assms
  proof (induction "length toks" arbitrary: toks cbs b rule: less_induct)
    case less
    have copy: ?case
      if eq: "replG inlineCodeRe f cbs b (render (t # ts)) =
                (render [t] @ fst (replG inlineCodeRe f cbs b' (render ts)),
                 snd (replG inlineCodeRe f cbs b' (render ts)))"
        and toks: "toks = t # ts" for t ts b'
    proof -
      from less.prems toks have cl: "cleanT ts" by simp
      from less.hyps[of ts, OF _ cl, of cbs b'] toks obtain toks2 new y where
        ih: "replG inlineCodeRe f cbs b' (render ts) = (render toks2, cbs @ new)"
            "\<forall>others. orig (cbs @ new @ others) toks2 = orig (cbs @ new @ others) ts"
            "cleanT toks2" "litPrefix ts = litPrefix toks2 @ y"
        by auto
      from litPrefix_append_mono[OF ih(4), of "[t]"] obtain y' where
        y': "litPrefix (t # ts) = litPrefix (t # toks2) @ y'" by auto
      have "cleanT ([t] @ toks2)"
        by (rule cleanT_append_mono[OF _ ih(3) ih(4)]) (use less.prems toks in simp)
      then have cl2: "cleanT (t # toks2)" by simp
      have "replG inlineCodeRe f cbs b (render toks) = (render (t # toks2), cbs @ new)"
        using eq ih(1) toks render_append[of "[t]" toks2] by simp
      moreover have "\<forall>others. orig (cbs @ new @ others) (t # toks2) = orig (cbs @ new @ others) toks"
        using ih(2) toks orig_append[of _ "[t]"] by (metis append_Cons append_Nil)
      ultimately show ?thesis using cl2 y' toks by blast
    qed
    show ?case
    proof (cases toks)
      case Nil
      have "matchAt inlineCodeRe b [] = None" by (rule inline_needs_backtick) simp
      then have "replG inlineCodeRe f cbs b (render toks) = (render [], cbs @ [])"
        using Nil by (simp add: replG_Nil_None)
      then show ?thesis using Nil by (intro exI[of _ "[]"]) simp
    next
      case (Cons t ts)
      show ?thesis
      proof (cases "matchAt inlineCodeRe b (render toks)")
        case None
        show ?thesis
        proof (cases t)
          case (TChar c)
          have "replG inlineCodeRe f cbs b (render (t # ts)) =
                (render [t] @ fst (replG inlineCodeRe f cbs (c # b) (render ts)),
                 snd (replG inlineCodeRe f cbs (c # b) (render ts)))"
            using None Cons TChar by (simp add: replG_Cons_None)
          from copy[OF this Cons] show ?thesis .
        next
          case (THole i)
          have "replG inlineCodeRe f cbs b (render (t # ts)) =
                (render [t] @ fst (replG inlineCodeRe f cbs (rev (placeholder i) @ b) (render ts)),
                 snd (replG inlineCodeRe f cbs (rev (placeholder i) @ b) (render ts)))"
            using inline_skip[OF BT_notin_placeholder, of f cbs b i "render ts"] THole by simp
          from copy[OF this Cons] show ?thesis .
        qed
      next
        case (Some st)
        let ?s = "render toks"
        from inline_match[OF Some] obtain w where
          w: "?s = w @ rest st" "w \<noteq> []" "last w = BT" by blast
        from token_boundary[OF w] obtain n where
          n: "w = render (take n toks)" "rest st = render (drop n toks)" "0 < n" "n \<le> length toks"
          by blast
        define A where "A = take n toks"
        define B where "B = drop n toks"
        have AB: "toks = A @ B" by (simp add: A_def B_def)
        have lB: "length B < length toks" using n(3,4) by (simp add: B_def)
        have clB: "cleanT B" using less.prems AB cleanT_drop by blast
        have lt: "length (rest st) < length ?s" using w(1,2) by (metis length_append length_greater_0_conv less_add_same_cancel2)
        have dr: "drop (length ?s - length (rest st)) ?s = rest st" using w(1) by (metis append_eq_conv_conj add_diff_cancel_right' length_append)
        have tk: "take (length ?s - length (rest st)) ?s = w" using w(1) by (metis append_eq_conv_conj add_diff_cancel_right' length_append)
        have wh: "whole (mkRes b ?s st) = w" using tk by (simp add: mkRes_def)
        note rs = replG_Some[OF Some lt, of f cbs, unfolded dr tk]
        have rB: "rest st = render B" by (simp add: n(2) B_def)
        have wA: "render A = w" by (simp add: n(1) A_def)
        show ?thesis
        proof (cases "strIncludes w ''___CODE_BLOCK_''")
          case True
          then have fx: "f cbs (mkRes b ?s st) = (w, cbs)" by (simp add: f_def wh)
          from less.hyps[OF lB clB, of cbs "rev w @ b"] obtain toks2 new y where
            ih: "replG inlineCodeRe f cbs (rev w @ b) (render B) = (render toks2, cbs @ new)"
                "\<forall>others. orig (cbs @ new @ others) toks2 = orig (cbs @ new @ others) B"
                "cleanT toks2" "litPrefix B = litPrefix toks2 @ y"
            by blast
          from rs have "replG inlineCodeRe f cbs b ?s = (render (A @ toks2), cbs @ new)"
            using ih(1) by (simp add: fx rB render_append wA)
          moreover have "\<forall>others. orig (cbs @ new @ others) (A @ toks2) = orig (cbs @ new @ others) toks"
            using ih(2) by (simp add: AB orig_append)
          moreover have "cleanT (A @ toks2)"
            by (rule cleanT_append_mono[OF _ ih(3) ih(4)]) (use less.prems AB in simp)
          moreover have "\<exists>y. litPrefix toks = litPrefix (A @ toks2) @ y"
            using litPrefix_append_mono[OF ih(4), of A] AB by simp
          ultimately show ?thesis by blast
        next
          case False
          then have fx: "f cbs (mkRes b ?s st) = (placeholder (length cbs), cbs @ [w])"
            by (simp add: f_def wh)
          from less.hyps[OF lB clB, of "cbs @ [w]" "rev w @ b"] obtain toks2 new where
            ih: "replG inlineCodeRe f (cbs @ [w]) (rev w @ b) (render B) = (render toks2, (cbs @ [w]) @ new)"
                "\<forall>others. orig ((cbs @ [w]) @ new @ others) toks2 = orig ((cbs @ [w]) @ new @ others) B"
                "cleanT toks2"
            by blast
          have oa: "orig X A = w" for X
            using orig_literal[of A X] False wA by simp
          let ?toks = "THole (length cbs) # toks2"
          from rs have "replG inlineCodeRe f cbs b ?s = (render ?toks, cbs @ (w # new))"
            using ih(1) by (simp add: fx rB)
          moreover have "\<forall>others. orig (cbs @ (w # new) @ others) ?toks = orig (cbs @ (w # new) @ others) toks"
            using ih(2) by (simp add: AB orig_append oa codeBlockAt_new)
          moreover have "cleanT ?toks" using ih(3) by simp
          moreover have "\<exists>y. litPrefix toks = litPrefix ?toks @ y" by simp
          ultimately show ?thesis by blast
        qed
      qed
    qed
  qed
  then show ?thesis unfolding f_def .
qed

lemma protect_tokens:
  assumes "\<not> strIncludes d ''___CODE_BLOCK_''"
  shows "\<exists>toks. cleanT toks \<and> fst (protect d) = render toks \<and> orig (snd (protect d)) toks = d"
proof -
  from protectFenced_tokens[OF assms, of "[]" "[]"] obtain toks1 new1 where
    1: "protectFenced [] d = (render toks1, new1)" "\<forall>others. orig (new1 @ others) toks1 = d"
       "cleanT toks1"
    unfolding protectFenced_def jsReplaceS_def by auto
  from protectInline_tokens[OF 1(3), of new1 "[]"] obtain toks2 new2 where
    2: "protectInline new1 (render toks1) = (render toks2, new1 @ new2)"
       "\<forall>others. orig (new1 @ new2 @ others) toks2 = orig (new1 @ new2 @ others) toks1"
       "cleanT toks2"
    unfolding protectInline_def jsReplaceS_def by auto
  have p: "protect d = (render toks2, new1 @ new2)" by (simp add: protect_def 1(1) 2(1))
  have "orig (new1 @ new2 @ []) toks2 = orig (new1 @ new2 @ []) toks1" using 2(2) by blast
  moreover have "orig (new1 @ new2 @ []) toks1 = d" using 1(2) by blast
  ultimately have "orig (new1 @ new2) toks2 = d" by simp
  with p 2(3) show ?thesis by auto
qed

subsection \<open>The scan for ordered-list numbers\<close>







subsection \<open>Attributes that are absent; the link card without a url\<close>





subsection \<open>The type of an alert\<close>







subsection \<open>The attributes of a video\<close>








subsection \<open>The chat transcript: avatars\<close>

text \<open>
  Claim C5, as the code has it. For the chat body of the specification,
  \<open>parseChatContent\<close> returns exactly two messages, A saying hi and B saying yo, and
  neither has an avatar: \<open>getMinecraftAvatar\<close> returns the address
  \<open>https://mc-heads.net/avatar/NAME\<close> exactly for a name of 3 to 16 letters, digits and
  underscores, and the empty string for every other name, and B has one character. With
  the name Bob in place of B the second message carries the address ending in Bob.
\<close>

theorem C5_chat_example:
  "map (\<lambda>msg. (name (person msg), avatar (person msg), content msg))
     (parseChatContent (''@person name:A'' @ [NL] @ ''hi'' @ [NL]
                        @ ''@person name:B, avatar:minecraft'' @ [NL] @ ''yo''))
     = [(''A'', None, ''hi''), (''B'', None, ''yo'')]
   \<and> (\<forall>u. getMinecraftAvatar u =
         (if 3 \<le> length u \<and> length u \<le> 16 \<and> (\<forall>c\<in>set u. isWord c)
          then ''https://mc-heads.net/avatar/'' @ u else []))
   \<and> map (\<lambda>msg. (name (person msg), avatar (person msg), content msg))
       (parseChatContent (''@person name:A'' @ [NL] @ ''hi'' @ [NL]
                          @ ''@person name:Bob, avatar:minecraft'' @ [NL] @ ''yo''))
     = [(''A'', None, ''hi''), (''Bob'', Some ''https://mc-heads.net/avatar/Bob'', ''yo'')]"
proof (intro conjI allI)
  show "map (\<lambda>msg. (name (person msg), avatar (person msg), content msg))
     (parseChatContent (''@person name:A'' @ [NL] @ ''hi'' @ [NL]
                        @ ''@person name:B, avatar:minecraft'' @ [NL] @ ''yo''))
     = [(''A'', None, ''hi''), (''B'', None, ''yo'')]"
    by code_simp
  show "map (\<lambda>msg. (name (person msg), avatar (person msg), content msg))
       (parseChatContent (''@person name:A'' @ [NL] @ ''hi'' @ [NL]
                          @ ''@person name:Bob, avatar:minecraft'' @ [NL] @ ''yo''))
     = [(''A'', None, ''hi''), (''Bob'', Some ''https://mc-heads.net/avatar/Bob'', ''yo'')]"
    by code_simp
qed (rule getMinecraftAvatar_char)

theorem C5_chat_example_witness:
  "getMinecraftAvatar ''Bob'' = ''https://mc-heads.net/avatar/Bob''
   \<and> getMinecraftAvatar ''B'' = []"
proof
  have c: "3 \<le> length ''Bob'' \<and> length ''Bob'' \<le> 16 \<and> (\<forall>c\<in>set ''Bob''. isWord c)"
    by code_simp
  show "getMinecraftAvatar ''Bob'' = ''https://mc-heads.net/avatar/Bob''"
    apply (subst C5_chat_example[THEN conjunct2, THEN conjunct1, THEN spec])
    apply (subst if_P[OF c])
    apply simp
    done
next
  have c: "\<not> (3 \<le> length ''B'' \<and> length ''B'' \<le> 16 \<and> (\<forall>c\<in>set ''B''. isWord c))"
    by code_simp
  show "getMinecraftAvatar ''B'' = []"
    apply (subst C5_chat_example[THEN conjunct2, THEN conjunct1, THEN spec])
    apply (subst if_not_P[OF c])
    apply simp
    done
qed

theorem C5_chat_example_counterexample:
  "length (parseChatContent (''@person name:A'' @ [NL] @ ''hi'' @ [NL]
                             @ ''@person name:B, avatar:minecraft'' @ [NL] @ ''yo'')) = 2
   \<and> avatar (person (parseChatContent (''@person name:A'' @ [NL] @ ''hi'' @ [NL]
                             @ ''@person name:B, avatar:minecraft'' @ [NL] @ ''yo'') ! 1)) = None"
  by code_simp

subsection \<open>Quoted and bare attribute values\<close>




subsection \<open>The messages of a chat transcript\<close>















subsection \<open>Code blocks through the whole transform\<close>

text \<open>
  Claim C1 asks that the text of every code region leaves \<open>processContent\<close> unchanged and
  that no placeholder remains. The code blocks set aside for the list indentation are
  put back with a string replacement that reads \<open>$$\<close>, \<open>$&\<close>, \<open>$`\<close> and \<open>$'\<close> in the code
  block as replacement patterns: the fenced block holding \<open>echo $$\<close> comes out holding
  \<open>echo $\<close>, and the fenced block holding \<open>$&\<close> comes out holding the placeholder
  \<open>___CODE_BLOCK_PLACEHOLDER_0___\<close>. A block fenced with tildes is set aside for the list
  indentation only, so the highlight syntax in it is rewritten.
\<close>

theorem C1_code_block_dollar_patterns:
  "processContent (''```sh'' @ [NL] @ ''echo $$'' @ [NL] @ ''```'')
     = ''```sh'' @ [NL] @ ''echo $'' @ [NL] @ ''```''
   \<and> processContent (''```'' @ [NL] @ ''$&'' @ [NL] @ ''```'')
     = ''```'' @ [NL] @ ''___CODE_BLOCK_PLACEHOLDER_0___'' @ [NL] @ ''```''
   \<and> processContent (''~~~'' @ [NL] @ ''==x=='' @ [NL] @ ''~~~'')
     = ''~~~'' @ [NL] @ ''<mark>x</mark>'' @ [NL] @ ''~~~''"
  by code_simp

subsection \<open>Processing the output again\<close>




subsection \<open>Masking code and restoring it\<close>

text \<open>
  Claim C2, as the code has it. For every document that does not contain the text
  \<open>___CODE_BLOCK_\<close>, masking the fenced code blocks and the inline code spans with
  placeholders (\<open>protect\<close>) and then putting the stored code back in the place of the
  placeholders (\<open>restore\<close>) gives the document again. (A document that contains the text
  of a placeholder is not reproduced: see the counterexample.)
\<close>

theorem C2_protect_restore:
  assumes "\<not> strIncludes d ''___CODE_BLOCK_''"
  shows "restore (snd (protect d)) (fst (protect d)) = d"
proof -
  from protect_tokens[OF assms] obtain toks where
    "cleanT toks" "fst (protect d) = render toks" "orig (snd (protect d)) toks = d" by blast
  then show ?thesis by (simp add: restore_render)
qed

theorem C2_protect_restore_witness:
  "fst (protect (''Run `ls -l` first:'' @ [NL] @ ''```sh'' @ [NL] @ ''echo `date`'' @ [NL] @ ''```'' @ [NL] @ ''done''))
     = ''Run ___CODE_BLOCK_1___ first:'' @ [NL] @ ''___CODE_BLOCK_0___'' @ [NL] @ ''done''
   \<and> restore (snd (protect (''Run `ls -l` first:'' @ [NL] @ ''```sh'' @ [NL] @ ''echo `date`'' @ [NL] @ ''```'' @ [NL] @ ''done'')))
         (fst (protect (''Run `ls -l` first:'' @ [NL] @ ''```sh'' @ [NL] @ ''echo `date`'' @ [NL] @ ''```'' @ [NL] @ ''done'')))
     = ''Run `ls -l` first:'' @ [NL] @ ''```sh'' @ [NL] @ ''echo `date`'' @ [NL] @ ''```'' @ [NL] @ ''done''"
proof
  show "fst (protect (''Run `ls -l` first:'' @ [NL] @ ''```sh'' @ [NL] @ ''echo `date`'' @ [NL] @ ''```'' @ [NL] @ ''done''))
     = ''Run ___CODE_BLOCK_1___ first:'' @ [NL] @ ''___CODE_BLOCK_0___'' @ [NL] @ ''done''"
    by code_simp
next
  have h: "\<not> strIncludes (''Run `ls -l` first:'' @ [NL] @ ''```sh'' @ [NL] @ ''echo `date`'' @ [NL] @ ''```'' @ [NL] @ ''done'') ''___CODE_BLOCK_''"
    by code_simp
  from C2_protect_restore[OF h]
  show "restore (snd (protect (''Run `ls -l` first:'' @ [NL] @ ''```sh'' @ [NL] @ ''echo `date`'' @ [NL] @ ''```'' @ [NL] @ ''done'')))
         (fst (protect (''Run `ls -l` first:'' @ [NL] @ ''```sh'' @ [NL] @ ''echo `date`'' @ [NL] @ ''```'' @ [NL] @ ''done'')))
     = ''Run `ls -l` first:'' @ [NL] @ ''```sh'' @ [NL] @ ''echo `date`'' @ [NL] @ ''```'' @ [NL] @ ''done''" .
qed

theorem C2_protect_restore_counterexample:
  "protect ''___CODE_BLOCK_0___ and `x`'' = (''___CODE_BLOCK_0___ and ___CODE_BLOCK_0___'', [''`x`''])
   \<and> restore (snd (protect ''___CODE_BLOCK_0___ and `x`'')) (fst (protect ''___CODE_BLOCK_0___ and `x`''))
       = ''`x` and `x`''
   \<and> restore (snd (protect ''___CODE_BLOCK_7___'')) (fst (protect ''___CODE_BLOCK_7___'')) = ''undefined''"
  by code_simp

end
